theory Spec2Isabelle
  imports Complex_Main
begin

section \<open>Data model\<close>

text \<open>
  The editor keeps its scene in the state variables of one React component
  (\<^verbatim>\<open>LandSubdivisionApp\<close>).  Coordinates are JavaScript numbers; they are
  modelled as real numbers, so the rounding of IEEE doubles is not part of the model,
  while the decimal rounding the code asks for (\<^verbatim>\<open>toFixed\<close>, \<^verbatim>\<open>Math.round\<close>)
  is.  A point \<^verbatim>\<open>[x, y]\<close> is a pair, a polygon an array of points.
\<close>

type_synonym point = "real \<times> real"

text \<open>
  Road objects: \<^verbatim>\<open>{road_id, is_public, width, entry_points | polygon,
  connected_to_public_road, road_to_lot_mapping}\<close>.  The two constant fields
  (\<^verbatim>\<open>is_public\<close>, \<^verbatim>\<open>connected_to_public_road\<close>) are fixed by the kind of
  road and are left out.
\<close>

record road =
  road_id :: string
  width :: real
  road_to_lot_mapping :: "string list"

record publicRoad = road +
  entry_points :: "point list"

record internalRoad = road +
  polygon :: "point list"

record lot =
  lot_id :: string
  lot_polygon :: "point list"
  front_road :: "string option"

text \<open>
  The persistent scene.  Its first four fields are the context object \<^verbatim>\<open>ctx\<close> that the
  frontage resolver reads; with the lots they are what \<^verbatim>\<open>makeSnapshot\<close> copies; the
  component state holds more around them.
\<close>

record ctx =
  boundary :: "point list"
  boundaryClosed :: bool
  publicRoads :: "publicRoad list"
  internalRoads :: "internalRoad list"

record snapshot = ctx +
  lots :: "lot list"

datatype kind = Boundary | Internal | Lot | PublicEP

record selection =
  kind :: kind
  index :: nat
  vertexIndex :: "nat option"
  edgeIndex :: "nat option"

record app = snapshot +
  history :: "snapshot list"
  future :: "snapshot list"
  selection :: "selection option"
  activePublicIdx :: int

datatype error = TypeError

section \<open>History\<close>

text \<open>
  \<^verbatim>\<open>deepCopy\<close> is a JSON round trip, the identity on the values of the model.
  \<^verbatim>\<open>makeSnapshot\<close> reads the state variables of the render in which the running
  handler was created; the queued updaters (\<^verbatim>\<open>setHistory(h => ...)\<close>) act on the
  latest state.  Every history operation therefore takes both: \<open>render\<close>, the state the
  handler sees, and the state being updated.
\<close>

definition makeSnapshot :: "app \<Rightarrow> snapshot" where
  "makeSnapshot render =
     \<lparr>boundary = boundary render, boundaryClosed = boundaryClosed render,
      publicRoads = publicRoads render, internalRoads = internalRoads render,
      lots = lots render\<rparr>"

definition restoreSnapshot :: "snapshot \<Rightarrow> app \<Rightarrow> app" where
  "restoreSnapshot s st =
     st\<lparr>boundary := boundary s, boundaryClosed := boundaryClosed s,
        publicRoads := publicRoads s, internalRoads := internalRoads s, lots := lots s\<rparr>"

definition pushHistory :: "app \<Rightarrow> app \<Rightarrow> app" where
  "pushHistory render st = st\<lparr>history := history st @ [makeSnapshot render], future := []\<rparr>"

definition undoHistory :: "app \<Rightarrow> app \<Rightarrow> app" where
  "undoHistory render st =
     (if history st = [] then st
      else let prev = last (history st) in
        (restoreSnapshot prev (st\<lparr>future := makeSnapshot render # future st\<rparr>))
          \<lparr>history := butlast (history st)\<rparr>)"

definition redoHistory :: "app \<Rightarrow> app \<Rightarrow> app" where
  "redoHistory render st =
     (if future st = [] then st
      else let next = hd (future st) in
        (restoreSnapshot next (st\<lparr>history := history st @ [makeSnapshot render]\<rparr>))
          \<lparr>future := tl (future st)\<rparr>)"

text \<open>An undo or redo issued as a user action of its own: the handler sees the latest state.\<close>

definition undo :: "app \<Rightarrow> app" where
  "undo st = undoHistory st st"

definition redo :: "app \<Rightarrow> app" where
  "redo st = redoHistory st st"

section \<open>Deletion\<close>

text \<open>\<^verbatim>\<open>xs.splice(i, 1)\<close>, also \<^verbatim>\<open>xs.filter((_, k) => k !== i)\<close>: drop the element at
  index \<open>i\<close>, nothing when \<open>i\<close> is out of range.\<close>

definition splice1 :: "nat \<Rightarrow> 'a list \<Rightarrow> 'a list" where
  "splice1 i xs = take i xs @ drop (Suc i) xs"

text \<open>
  The updater of \<^verbatim>\<open>deleteEdge\<close> for lots.  Reading \<^verbatim>\<open>u[index].polygon\<close> of a missing
  element throws a \<^verbatim>\<open>TypeError\<close>.
\<close>

definition deleteEdgeLots :: "nat \<Rightarrow> nat \<Rightarrow> lot list \<Rightarrow> error + lot list" where
  "deleteEdgeLots idx edgeIdx ls =
     (if length ls \<le> idx then Inl TypeError
      else let poly = lot_polygon (ls ! idx); n = length poly in
        if n < 3 then Inr ls
        else let rm = (edgeIdx + 1) mod n; poly' = splice1 rm poly in
          if length poly' < 3 then Inr (splice1 idx ls)
          else Inr (ls[idx := (ls ! idx)\<lparr>lot_polygon := poly'\<rparr>]))"

definition deleteEdgeRoads :: "nat \<Rightarrow> nat \<Rightarrow> internalRoad list \<Rightarrow> error + internalRoad list" where
  "deleteEdgeRoads idx edgeIdx rs =
     (if length rs \<le> idx then Inl TypeError
      else let poly = polygon (rs ! idx); n = length poly in
        if n < 3 then Inr rs
        else let rm = (edgeIdx + 1) mod n; poly' = splice1 rm poly in
          if length poly' < 3 then Inr (splice1 idx rs)
          else Inr (rs[idx := (rs ! idx)\<lparr>polygon := poly'\<rparr>]))"

definition deleteEdge :: "app \<Rightarrow> kind \<Rightarrow> nat \<Rightarrow> nat \<Rightarrow> app \<Rightarrow> error + app" where
  "deleteEdge render k idx edgeIdx st0 =
     (let st = pushHistory render st0 in
      case k of
        PublicEP \<Rightarrow> Inr st
      | Lot \<Rightarrow> (case deleteEdgeLots idx edgeIdx (lots st) of
                 Inl e \<Rightarrow> Inl e | Inr ls \<Rightarrow> Inr (st\<lparr>lots := ls\<rparr>))
      | Internal \<Rightarrow> (case deleteEdgeRoads idx edgeIdx (internalRoads st) of
                 Inl e \<Rightarrow> Inl e | Inr rs \<Rightarrow> Inr (st\<lparr>internalRoads := rs\<rparr>))
      | Boundary \<Rightarrow>
          (let poly = boundary render; n = length poly in
           if n < 3 then Inr st
           else let rm = (edgeIdx + 1) mod n; poly' = splice1 rm poly in
             if length poly' < 3 then Inr (st\<lparr>boundary := [], boundaryClosed := False\<rparr>)
             else Inr (st\<lparr>boundary := poly', boundaryClosed := True\<rparr>)))"

text \<open>The vertex branch of \<^verbatim>\<open>onDeleteSelection\<close>, per kind of entity.\<close>

definition deleteVertexLots :: "nat \<Rightarrow> nat \<Rightarrow> lot list \<Rightarrow> error + lot list" where
  "deleteVertexLots idx v ls =
     (if length ls \<le> idx then Inl TypeError
      else let poly' = splice1 v (lot_polygon (ls ! idx)) in
        if length poly' < 3 then Inr (splice1 idx ls)
        else Inr (ls[idx := (ls ! idx)\<lparr>lot_polygon := poly'\<rparr>]))"

definition deleteVertexRoads :: "nat \<Rightarrow> nat \<Rightarrow> internalRoad list \<Rightarrow> error + internalRoad list" where
  "deleteVertexRoads idx v rs =
     (if length rs \<le> idx then Inl TypeError
      else let poly' = splice1 v (polygon (rs ! idx)) in
        if length poly' < 3 then Inr (splice1 idx rs)
        else Inr (rs[idx := (rs ! idx)\<lparr>polygon := poly'\<rparr>]))"

definition deleteEntryPoint :: "nat \<Rightarrow> nat \<Rightarrow> publicRoad list \<Rightarrow> error + publicRoad list" where
  "deleteEntryPoint idx v prs =
     (if length prs \<le> idx then Inl TypeError
      else Inr (prs[idx := (prs ! idx)\<lparr>entry_points := splice1 v (entry_points (prs ! idx))\<rparr>]))"

definition onDeleteSelection :: "app \<Rightarrow> error + app" where
  "onDeleteSelection render =
     (case selection render of
        None \<Rightarrow> Inr render
      | Some sel \<Rightarrow>
          (let st = pushHistory render render in
           case edgeIndex sel of
             Some e \<Rightarrow>
               (case deleteEdge render (kind sel) (index sel) e st of
                  Inl err \<Rightarrow> Inl err
                | Inr st' \<Rightarrow> Inr (st'\<lparr>selection := None\<rparr>))
           | None \<Rightarrow>
               (case kind sel of
                  Lot \<Rightarrow>
                    (case vertexIndex sel of
                       Some v \<Rightarrow>
                         (case deleteVertexLots (index sel) v (lots st) of
                            Inl err \<Rightarrow> Inl err
                          | Inr ls \<Rightarrow> Inr (st\<lparr>lots := ls, selection := None\<rparr>))
                     | None \<Rightarrow> Inr (st\<lparr>lots := splice1 (index sel) (lots st), selection := None\<rparr>))
                | Internal \<Rightarrow>
                    (case vertexIndex sel of
                       Some v \<Rightarrow>
                         (case deleteVertexRoads (index sel) v (internalRoads st) of
                            Inl err \<Rightarrow> Inl err
                          | Inr rs \<Rightarrow> Inr (st\<lparr>internalRoads := rs, selection := None\<rparr>))
                     | None \<Rightarrow>
                         Inr (st\<lparr>internalRoads := splice1 (index sel) (internalRoads st),
                                 selection := None\<rparr>))
                | Boundary \<Rightarrow>
                    (case vertexIndex sel of
                       Some v \<Rightarrow>
                         (let poly' = splice1 v (boundary render) in
                          if length poly' < 3
                          then Inr (st\<lparr>boundary := [], boundaryClosed := False, selection := None\<rparr>)
                          else Inr (st\<lparr>boundary := poly', boundaryClosed := True,
                                       selection := None\<rparr>))
                     | None \<Rightarrow>
                         Inr (st\<lparr>boundary := [], boundaryClosed := False, selection := None\<rparr>))
                | PublicEP \<Rightarrow>
                    (case vertexIndex sel of
                       Some v \<Rightarrow>
                         (case deleteEntryPoint (index sel) v (publicRoads st) of
                            Inl err \<Rightarrow> Inl err
                          | Inr prs \<Rightarrow> Inr (st\<lparr>publicRoads := prs, selection := None\<rparr>))
                     | None \<Rightarrow>
                         Inr (st\<lparr>publicRoads := splice1 (index sel) (publicRoads st),
                                 activePublicIdx := - 1, selection := None\<rparr>)))))"


section \<open>Geometry helpers\<close>

text \<open>
  \<^verbatim>\<open>Number(x.toFixed(d))\<close>: the multiple of \<open>10\<^sup>-\<^sup>d\<close> nearest to \<open>x\<close>; \<^verbatim>\<open>toFixed\<close>
  works on the absolute value and takes the larger candidate at a tie, so ties go away from
  zero.  \<^verbatim>\<open>Math.round\<close> takes ties upwards.
\<close>

definition toFixed :: "nat \<Rightarrow> real \<Rightarrow> real" where
  "toFixed d x = sgn x * of_int \<lfloor>\<bar>x\<bar> * 10 ^ d + 1 / 2\<rfloor> / 10 ^ d"

definition mathRound :: "real \<Rightarrow> real" where
  "mathRound x = of_int \<lfloor>x + 1 / 2\<rfloor>"

definition shoelaceArea :: "point list \<Rightarrow> real" where
  "shoelaceArea points =
     (if length points < 3 then 0
      else \<bar>fold (\<lambda>i s. s + (fst (points ! i) * snd (points ! ((i + 1) mod length points))
                             - fst (points ! ((i + 1) mod length points)) * snd (points ! i)))
                 [0..<length points] 0\<bar> / 2)"

definition distance :: "point \<Rightarrow> point \<Rightarrow> real" where
  "distance a b = sqrt ((fst a - fst b) * (fst a - fst b) + (snd a - snd b) * (snd a - snd b))"

definition dist2 :: "point \<Rightarrow> point \<Rightarrow> real" where
  "dist2 a b = (fst a - fst b) * (fst a - fst b) + (snd a - snd b) * (snd a - snd b)"

record projInfo =
  proj :: point
  d2 :: real
  tpar :: real

definition pointSegProjection :: "point \<Rightarrow> point \<Rightarrow> point \<Rightarrow> projInfo" where
  "pointSegProjection p a b =
     (let vx = fst b - fst a; vy = snd b - snd a;
          wx = fst p - fst a; wy = snd p - snd a;
          vv = vx * vx + vy * vy in
      if vv \<le> 1 / 10 ^ 12 then \<lparr>proj = a, d2 = dist2 p a, tpar = 0\<rparr>
      else let t = max 0 (min 1 ((wx * vx + wy * vy) / vv));
               q = (fst a + t * vx, snd a + t * vy) in
        \<lparr>proj = q, d2 = dist2 p q, tpar = t\<rparr>)"

text \<open>The loop keeps the best projection so far; \<open>None\<close> stands for the initial
  \<^verbatim>\<open>best = null, bestD2 = Infinity\<close>.\<close>

definition nearestSegStep :: "point \<Rightarrow> point \<times> point \<Rightarrow> projInfo option \<Rightarrow> projInfo option" where
  "nearestSegStep p seg best =
     (let info = pointSegProjection p (fst seg) (snd seg) in
      case best of None \<Rightarrow> Some info
      | Some b \<Rightarrow> if d2 info < d2 b then Some info else best)"

definition snapToNearestSegment :: "point \<Rightarrow> (point \<times> point) list \<Rightarrow> real \<Rightarrow> point option" where
  "snapToNearestSegment p segments tolUnits =
     (if segments = [] then None
      else case fold (nearestSegStep p) segments None of
        None \<Rightarrow> None
      | Some best \<Rightarrow> if sqrt (d2 best) \<le> tolUnits then Some (proj best) else None)"

definition poolStep :: "point \<Rightarrow> point \<Rightarrow> (point \<times> real) option \<Rightarrow> (point \<times> real) option" where
  "poolStep p q best =
     (case best of None \<Rightarrow> Some (q, dist2 p q)
      | Some (b, bestD2) \<Rightarrow> if dist2 p q < bestD2 then Some (q, dist2 p q) else best)"

definition snapToPools :: "point \<Rightarrow> point list list \<Rightarrow> real \<Rightarrow> point" where
  "snapToPools p pools tolUnits =
     (case fold (\<lambda>pool best. fold (poolStep p) pool best) pools None of
        None \<Rightarrow> p
      | Some (best, bestD2) \<Rightarrow> if sqrt bestD2 \<le> tolUnits then best else p)"

definition axisAlign :: "point option \<Rightarrow> point \<Rightarrow> point" where
  "axisAlign prev p =
     (case prev of None \<Rightarrow> p
      | Some q \<Rightarrow> if \<bar>fst p - fst q\<bar> \<ge> \<bar>snd p - snd q\<bar> then (fst p, snd q) else (fst q, snd p))"

definition polygonCentroid :: "point list \<Rightarrow> point" where
  "polygonCentroid points =
     (let n = length points;
          mean = (fold (\<lambda>p a. a + fst p) points 0 / real n, fold (\<lambda>p a. a + snd p) points 0 / real n)
      in
      if n < 3 then (if n = 0 then (0, 0) else mean)
      else
        let acc = fold (\<lambda>i (a, cx, cy).
                     let x1 = fst (points ! i); y1 = snd (points ! i);
                         x2 = fst (points ! ((i + 1) mod n)); y2 = snd (points ! ((i + 1) mod n));
                         cross = x1 * y2 - x2 * y1
                     in (a + cross, cx + (x1 + x2) * cross, cy + (y1 + y2) * cross))
                   [0..<n] (0, 0, 0);
            a = fst acc * (1 / 2); cx = fst (snd acc); cy = snd (snd acc)
        in if \<bar>a\<bar> < 1 / 10 ^ 12 then mean else (cx / (6 * a), cy / (6 * a)))"

definition transformPoint :: "point \<Rightarrow> real \<Rightarrow> real \<Rightarrow> real \<Rightarrow> point" where
  "transformPoint p s cx cy =
     (toFixed 2 (cx + s * (fst p - cx)), toFixed 2 (cy + s * (snd p - cy)))"

definition scalePolygonToArea :: "point list \<Rightarrow> real \<Rightarrow> point list" where
  "scalePolygonToArea poly targetArea =
     (let A = shoelaceArea poly in
      if targetArea \<le> 0 \<or> A \<le> 0 then poly
      else let s = sqrt (targetArea / A); c = polygonCentroid poly in
        map (\<lambda>pt. transformPoint pt s (fst c) (snd c)) poly)"

definition EPS :: real where
  "EPS = 1 / 10 ^ 9"

definition ptsEqual :: "point \<Rightarrow> point \<Rightarrow> bool" where
  "ptsEqual a b = (\<bar>fst a - fst b\<bar> \<le> EPS \<and> \<bar>snd a - snd b\<bar> \<le> EPS)"

definition stripClosingDuplicate :: "point list \<Rightarrow> point list" where
  "stripClosingDuplicate poly =
     (if length poly < 2 then poly
      else if ptsEqual (poly ! 0) (poly ! (length poly - 1)) then butlast poly else poly)"


section \<open>Sorting with a comparator\<close>

text \<open>
  \<^verbatim>\<open>Array.prototype.sort\<close> is stable, and both comparators of the program order their
  arguments by a total preorder; the result is then the stable sorted arrangement, computed
  here by insertion from the right.
\<close>

fun insertBy :: "('a \<Rightarrow> 'a \<Rightarrow> real) \<Rightarrow> 'a \<Rightarrow> 'a list \<Rightarrow> 'a list" where
  "insertBy cmp x [] = [x]"
| "insertBy cmp x (y # ys) = (if cmp x y \<le> 0 then x # y # ys else y # insertBy cmp x ys)"

definition sortBy :: "('a \<Rightarrow> 'a \<Rightarrow> real) \<Rightarrow> 'a list \<Rightarrow> 'a list" where
  "sortBy cmp xs = foldr (insertBy cmp) xs []"

section \<open>Convex hull\<close>

definition cross3 :: "point \<Rightarrow> point \<Rightarrow> point \<Rightarrow> real" where
  "cross3 o' a b = (fst a - fst o') * (snd b - snd o') - (snd a - snd o') * (fst b - fst o')"

definition cmpXY :: "point \<Rightarrow> point \<Rightarrow> real" where
  "cmpXY A B = (if fst A = fst B then snd A - snd B else fst A - fst B)"

text \<open>The inner \<^verbatim>\<open>while\<close> of the hull: pop while the last two points and \<open>pt\<close> do not
  turn left.\<close>

function popWhile :: "point \<Rightarrow> point list \<Rightarrow> point list" where
  "popWhile pt st =
     (if length st \<ge> 2 \<and> cross3 (st ! (length st - 2)) (st ! (length st - 1)) pt \<le> 0
      then popWhile pt (butlast st) else st)"
  by pat_completeness auto
termination
  by (relation "measure (\<lambda>(pt, st). length st)") auto

declare popWhile.simps [simp del]

definition hullChain :: "point list \<Rightarrow> point list" where
  "hullChain ps = fold (\<lambda>pt st. popWhile pt st @ [pt]) ps []"

definition convexHull :: "point list \<Rightarrow> point list" where
  "convexHull points =
     (let pts = stripClosingDuplicate points in
      if length pts \<le> 1 then pts
      else let p = sortBy cmpXY pts;
               lower = hullChain p;
               upper = hullChain (rev p)
           in butlast lower @ butlast upper)"

section \<open>Winding\<close>

definition signedArea :: "point list \<Rightarrow> real" where
  "signedArea poly =
     (if length poly < 3 then 0
      else fold (\<lambda>i s. s + (fst (poly ! i) * snd (poly ! ((i + 1) mod length poly))
                           - fst (poly ! ((i + 1) mod length poly)) * snd (poly ! i)))
                [0..<length poly] 0 / 2)"

definition ensureClosedLoop :: "point list \<Rightarrow> point list" where
  "ensureClosedLoop polyOpen =
     (if length polyOpen < 3 then polyOpen
      else if ptsEqual (polyOpen ! 0) (polyOpen ! (length polyOpen - 1)) then polyOpen
      else polyOpen @ [polyOpen ! 0])"

text \<open>
  \<^verbatim>\<open>Math.atan2(y, x)\<close>, the angle of \<open>(x, y)\<close> in \<open>(-\<pi>, \<pi>]\<close>, with \<open>atan2(0, 0) = 0\<close>.
  It is a library function, given here by its mathematical definition; the real numbers
  have no negative zero, for which the library returns \<open>-\<pi>\<close> on the negative \<open>x\<close>-axis.
\<close>

definition atan2 :: "real \<Rightarrow> real \<Rightarrow> real" where
  "atan2 y x =
     (if x > 0 then arctan (y / x)
      else if x < 0 then (if y \<ge> 0 then arctan (y / x) + pi else arctan (y / x) - pi)
      else if y > 0 then pi / 2 else if y < 0 then - (pi / 2) else 0)"

definition cmpAngle :: "real \<Rightarrow> real \<Rightarrow> point \<Rightarrow> point \<Rightarrow> real" where
  "cmpAngle cx cy a b =
     (let angA = atan2 (snd a - cy) (fst a - cx);
          angB = atan2 (snd b - cy) (fst b - cx) in
      if angA \<noteq> angB then angA - angB
      else let ra = (fst a - cx) * (fst a - cx) + (snd a - cy) * (snd a - cy);
               rb = (fst b - cx) * (fst b - cx) + (snd b - cy) * (snd b - cy)
           in ra - rb)"

definition normalizeCCW :: "point list \<Rightarrow> point list" where
  "normalizeCCW points =
     (let poly = stripClosingDuplicate points in
      if length poly < 3 then poly
      else let c = polygonCentroid poly;
               sorted = sortBy (cmpAngle (fst c) (snd c)) poly
           in if signedArea sorted > 0 then sorted else rev sorted)"

section \<open>Frontage\<close>

definition orient :: "point \<Rightarrow> point \<Rightarrow> point \<Rightarrow> int" where
  "orient a b c =
     (let cross = (fst b - fst a) * (snd c - snd a) - (snd b - snd a) * (fst c - fst a) in
      if \<bar>cross\<bar> < 1 / 10 ^ 9 then 0 else if cross > 0 then 1 else - 1)"

definition onSegment :: "point \<Rightarrow> point \<Rightarrow> point \<Rightarrow> bool" where
  "onSegment a b p =
     (let minx = min (fst a) (fst b) - 1 / 10 ^ 9; maxx = max (fst a) (fst b) + 1 / 10 ^ 9;
          miny = min (snd a) (snd b) - 1 / 10 ^ 9; maxy = max (snd a) (snd b) + 1 / 10 ^ 9 in
      if fst p < minx \<or> fst p > maxx \<or> snd p < miny \<or> snd p > maxy then False
      else \<bar>(fst b - fst a) * (snd p - snd a) - (snd b - snd a) * (fst p - fst a)\<bar> < 1 / 10 ^ 9)"

definition segmentsIntersectOrTouch :: "point \<Rightarrow> point \<Rightarrow> point \<Rightarrow> point \<Rightarrow> bool" where
  "segmentsIntersectOrTouch a b c d =
     (let o1 = orient a b c; o2 = orient a b d; o3 = orient c d a; o4 = orient c d b in
      if o1 \<noteq> o2 \<and> o3 \<noteq> o4 then True
      else if o1 = 0 \<and> onSegment a b c then True
      else if o2 = 0 \<and> onSegment a b d then True
      else if o3 = 0 \<and> onSegment c d a then True
      else if o4 = 0 \<and> onSegment c d b then True
      else False)"

definition edgesFromPolygon :: "point list \<Rightarrow> bool \<Rightarrow> (point \<times> point) list" where
  "edgesFromPolygon poly isClosed =
     (if length poly < 2 then []
      else map (\<lambda>i. (poly ! i, poly ! (i + 1))) [0..<length poly - 1]
           @ (if isClosed \<and> length poly \<ge> 3 then [(poly ! (length poly - 1), poly ! 0)] else []))"

text \<open>
  The walk along the boundary ring from index \<open>iFrom\<close> to \<open>iTo\<close>.  The loop of the source
  ends only when it reaches \<open>iTo\<close>; a walk that never does has no value (\<open>None\<close>).
\<close>

partial_function (option) pathSegsLoop ::
  "point list \<Rightarrow> nat \<Rightarrow> nat \<Rightarrow> (point \<times> point) list \<Rightarrow> (point \<times> point) list option" where
  "pathSegsLoop bnd i iTo segs =
     (if i \<noteq> iTo
      then pathSegsLoop bnd ((i + 1) mod length bnd) iTo
             (segs @ [(bnd ! i, bnd ! ((i + 1) mod length bnd))])
      else Some segs)"

definition pathSegsBetweenIndices :: "point list \<Rightarrow> nat \<Rightarrow> nat \<Rightarrow> (point \<times> point) list option" where
  "pathSegsBetweenIndices bnd iFrom iTo = pathSegsLoop bnd iFrom iTo []"

text \<open>The index of the nearest boundary vertex, the first one among equally near ones;
  \<open>None\<close> is the \<open>-1\<close> of the source, returned for an empty boundary.\<close>

definition nearestBoundaryIndex :: "point \<Rightarrow> point list \<Rightarrow> nat option" where
  "nearestBoundaryIndex pt bnd =
     map_option fst
       (fold (\<lambda>i best. case best of None \<Rightarrow> Some (i, distance pt (bnd ! i))
                        | Some (bestI, bestD) \<Rightarrow>
                            if distance pt (bnd ! i) < bestD then Some (i, distance pt (bnd ! i))
                            else best)
             [0..<length bnd] None)"

definition segmentDistance :: "point \<Rightarrow> point \<Rightarrow> point \<Rightarrow> point \<Rightarrow> real" where
  "segmentDistance a b c d =
     sqrt (min (min (min (d2 (pointSegProjection a c d)) (d2 (pointSegProjection b c d)))
                    (d2 (pointSegProjection c a b)))
               (d2 (pointSegProjection d a b)))"

text \<open>
  The two nested loops over the lot edges and the road edges.  For an internal road they set
  the flag \<^verbatim>\<open>touch\<close> and break, for a public road they return at once; in both cases they
  decide whether some pair of edges passes one of the two tests.
\<close>

fun edgeTouchesAny :: "point \<times> point \<Rightarrow> (point \<times> point) list \<Rightarrow> real \<Rightarrow> bool" where
  "edgeTouchesAny ab [] tolUnits = False"
| "edgeTouchesAny ab (cd # rest) tolUnits =
     (if segmentsIntersectOrTouch (fst ab) (snd ab) (fst cd) (snd cd) then True
      else if tolUnits > 0 \<and> segmentDistance (fst ab) (snd ab) (fst cd) (snd cd) \<le> tolUnits then True
      else edgeTouchesAny ab rest tolUnits)"

fun edgesTouch :: "(point \<times> point) list \<Rightarrow> (point \<times> point) list \<Rightarrow> real \<Rightarrow> bool" where
  "edgesTouch [] roadEdges tolUnits = False"
| "edgesTouch (ab # rest) roadEdges tolUnits =
     (if edgeTouchesAny ab roadEdges tolUnits then True else edgesTouch rest roadEdges tolUnits)"

fun internalLoop :: "(point \<times> point) list \<Rightarrow> real \<Rightarrow> internalRoad list \<Rightarrow> string option" where
  "internalLoop lotEdges tolUnits [] = None"
| "internalLoop lotEdges tolUnits (r # rs) =
     (if edgesTouch lotEdges (edgesFromPolygon (polygon r) True) tolUnits then Some (road_id r)
      else internalLoop lotEdges tolUnits rs)"

definition segsLen :: "(point \<times> point) list \<Rightarrow> real" where
  "segsLen ss =
     fold (\<lambda>seg s. s + sqrt ((fst (snd seg) - fst (fst seg)) * (fst (snd seg) - fst (fst seg))
                           + (snd (snd seg) - snd (fst seg)) * (snd (snd seg) - snd (fst seg))))
          ss 0"

text \<open>The result of the resolver is \<open>Some None\<close> for \<^verbatim>\<open>null\<close>, \<open>Some (Some id)\<close> for a road
  id, and \<open>None\<close> when a boundary walk does not end.\<close>

fun publicLoop ::
  "(point \<times> point) list \<Rightarrow> point list \<Rightarrow> real \<Rightarrow> publicRoad list \<Rightarrow> string option option" where
  "publicLoop lotEdges bnd tolUnits [] = Some None"
| "publicLoop lotEdges bnd tolUnits (pr # prs) =
     (if length (entry_points pr) < 2 then publicLoop lotEdges bnd tolUnits prs
      else
        case (nearestBoundaryIndex (entry_points pr ! 0) bnd,
              nearestBoundaryIndex (entry_points pr ! 1) bnd) of
          (Some iA, Some iB) \<Rightarrow>
            if iA = iB then publicLoop lotEdges bnd tolUnits prs
            else
              (case pathSegsBetweenIndices bnd iA iB of
                 None \<Rightarrow> None
               | Some segsAB \<Rightarrow>
                   (case pathSegsBetweenIndices bnd iB iA of
                      None \<Rightarrow> None
                    | Some segsBA \<Rightarrow>
                        let pubSegs = (if segsLen segsAB \<le> segsLen segsBA then segsAB else segsBA) in
                        if edgesTouch lotEdges pubSegs tolUnits then Some (Some (road_id pr))
                        else publicLoop lotEdges bnd tolUnits prs))
        | _ \<Rightarrow> publicLoop lotEdges bnd tolUnits prs)"

definition computeFrontRoadForLot :: "point list \<Rightarrow> ctx \<Rightarrow> real \<Rightarrow> string option option" where
  "computeFrontRoadForLot lotPoly c tolUnits =
     (if length lotPoly < 3 then Some None
      else let lotEdges = edgesFromPolygon lotPoly True in
        case internalLoop lotEdges tolUnits (internalRoads c) of
          Some rid \<Rightarrow> Some (Some rid)
        | None \<Rightarrow>
            if boundaryClosed c \<and> length (boundary c) \<ge> 3
            then publicLoop lotEdges (boundary c) tolUnits (publicRoads c)
            else Some None)"


section \<open>Snapping\<close>

datatype mode = ModeBoundary | ModePublicRoad | ModeInternalRoad | ModeLot | ModeSelect

text \<open>The state variables of the component that the snap resolver and the export read,
  besides the scene.\<close>

record settings =
  landId :: string
  mode :: mode
  current :: "point list"
  snapTol :: real
  lineTol :: real
  gridSnap :: bool
  gridStep :: real
  gridTol :: real
  gridStrict :: bool
  gridOrigin :: point
  unitsPerPx :: point

definition avgUP :: "settings \<Rightarrow> real" where
  "avgUP se = max ((fst (unitsPerPx se) + snd (unitsPerPx se)) / 2) (1 / 10 ^ 6)"

definition snapToGrid :: "point \<Rightarrow> real \<Rightarrow> point \<Rightarrow> real \<Rightarrow> bool \<Rightarrow> point" where
  "snapToGrid p step origin tolUnits always =
     (if step \<le> 0 then p
      else let gx = mathRound ((fst p - fst origin) / step) * step + fst origin;
               gy = mathRound ((snd p - snd origin) / step) * step + snd origin;
               g = (toFixed 2 gx, toFixed 2 gy)
           in if always then g else if distance p g \<le> tolUnits then g else p)"

definition addSegs :: "point list \<Rightarrow> bool \<Rightarrow> (point \<times> point) list" where
  "addSegs poly isClosed =
     (if length poly < 2 then []
      else map (\<lambda>i. (poly ! i, poly ! (i + 1))) [0..<length poly - 1]
           @ (if isClosed \<and> length poly \<ge> 3 then [(poly ! (length poly - 1), poly ! 0)] else []))"

definition collectSegments ::
  "point list \<Rightarrow> bool \<Rightarrow> point list \<Rightarrow> internalRoad list \<Rightarrow> lot list \<Rightarrow> (point \<times> point) list" where
  "collectSegments bnd bndClosed cur roads' ls =
     addSegs bnd bndClosed @ addSegs cur False
     @ concat (map (\<lambda>r. addSegs (polygon r) True) roads')
     @ concat (map (\<lambda>l. addSegs (lot_polygon l) True) ls)"

text \<open>The anchor of the axis lock: the last point of the path being drawn, or the last entry
  point of the active public road.\<close>

definition prevPoint :: "settings \<Rightarrow> app \<Rightarrow> point option" where
  "prevPoint se st =
     (if mode se = ModeBoundary \<and> \<not> boundaryClosed st \<and> current se \<noteq> []
      then Some (current se ! (length (current se) - 1))
      else if (mode se = ModeInternalRoad \<or> mode se = ModeLot) \<and> current se \<noteq> []
      then Some (current se ! (length (current se) - 1))
      else if mode se = ModePublicRoad \<and> activePublicIdx st \<ge> 0
      then (if nat (activePublicIdx st) < length (publicRoads st)
               \<and> entry_points (publicRoads st ! nat (activePublicIdx st)) \<noteq> []
            then let eps = entry_points (publicRoads st ! nat (activePublicIdx st))
                 in Some (eps ! (length eps - 1))
            else None)
      else None)"

text \<open>The point chosen between the grid candidate \<open>p1\<close> and the line candidate, both
  measured from the axis-locked pointer position \<open>aligned\<close>.\<close>

definition gridOrLine :: "point \<Rightarrow> point \<Rightarrow> (point \<times> point) list \<Rightarrow> real \<Rightarrow> point" where
  "gridOrLine aligned p1 segments tolUnits =
     (if segments \<noteq> [] then
        (case snapToNearestSegment aligned segments tolUnits of
           None \<Rightarrow> p1
         | Some pj \<Rightarrow>
             let dGrid = distance aligned p1; dLine = distance aligned pj in
             if dLine \<le> dGrid then (toFixed 2 (fst pj), toFixed 2 (snd pj)) else p1)
      else p1)"

definition vertexPools :: "settings \<Rightarrow> app \<Rightarrow> point list list" where
  "vertexPools se st =
     (if boundary st \<noteq> [] then [boundary st] else [])
     @ map entry_points (filter (\<lambda>pr. entry_points pr \<noteq> []) (publicRoads st))
     @ (if current se \<noteq> [] \<and> butlast (current se) \<noteq> [] then [butlast (current se)] else [])
     @ map polygon (internalRoads st)
     @ map lot_polygon (lots st)"

text \<open>\<open>raw\<close> is the result of \<^verbatim>\<open>clientToSvg(e)\<close>, \<open>shiftKey\<close> the modifier of the event.\<close>

definition computePreviewPoint :: "settings \<Rightarrow> app \<Rightarrow> point option \<Rightarrow> bool \<Rightarrow> point option" where
  "computePreviewPoint se st raw shiftKey =
     (case raw of None \<Rightarrow> None
      | Some raw0 \<Rightarrow>
          let prev = prevPoint se st;
              aligned = (if shiftKey \<and> prev \<noteq> None \<and> mode se \<noteq> ModeSelect
                         then axisAlign prev raw0 else raw0);
              tolUnitsGrid = gridTol se * avgUP se;
              p1 = (if gridSnap se
                    then snapToGrid aligned (gridStep se) (gridOrigin se) tolUnitsGrid (gridStrict se)
                    else aligned);
              segments = collectSegments (boundary st) (boundaryClosed st) (current se)
                           (internalRoads st) (lots st);
              p2 = gridOrLine aligned p1 segments (lineTol se * avgUP se)
          in Some (snapToPools p2 (vertexPools se st) (snapTol se * avgUP se)))"

section \<open>Export\<close>

record lotInfo =
  info_id :: string
  polygonOpen :: "point list"
  info_area :: real
  front :: "string option"

record lotOut = lot +
  area :: real

record inputPart =
  land_id :: string
  in_boundary :: "point list"
  roads :: "publicRoad list"

record outputPart =
  internal_roads :: "internalRoad list"
  out_lots :: "lotOut list"

record exportDoc =
  doc_input :: inputPart
  doc_output :: outputPart

definition lotInfoOf :: "ctx \<Rightarrow> real \<Rightarrow> lot \<Rightarrow> lotInfo option" where
  "lotInfoOf c tolUnits l =
     (let polyOpen = normalizeCCW (lot_polygon l) in
      case computeFrontRoadForLot polyOpen c tolUnits of
        None \<Rightarrow> None
      | Some fr \<Rightarrow>
          Some \<lparr>info_id = lot_id l, polygonOpen = polyOpen,
                info_area = toFixed 1 (shoelaceArea polyOpen), front = fr\<rparr>)"

definition lotIdsOf :: "lotInfo list \<Rightarrow> string \<Rightarrow> string list" where
  "lotIdsOf lotInfos rid = map info_id (filter (\<lambda>li. front li = Some rid) lotInfos)"

text \<open>The document that \<^verbatim>\<open>exportJSON\<close> serializes (the download and the PNG export are
  outside the model); \<open>None\<close> when a frontage computation does not return.\<close>

definition exportJSON :: "settings \<Rightarrow> app \<Rightarrow> exportDoc option" where
  "exportJSON se st =
     (let boundaryOpen = normalizeCCW (boundary st);
          boundaryClosedLoop = (if length boundaryOpen \<ge> 3 then ensureClosedLoop boundaryOpen
                                else boundaryOpen);
          c = \<lparr>boundary = boundaryOpen, boundaryClosed = (length boundaryOpen \<ge> 3),
               publicRoads = publicRoads st, internalRoads = internalRoads st\<rparr>;
          tolUnits = 3 * avgUP se
      in case those (map (lotInfoOf c tolUnits) (lots st)) of
           None \<Rightarrow> None
         | Some lotInfos \<Rightarrow>
             let publicRoadsOut =
                   map (\<lambda>pr. \<lparr>road_id = road_id pr, width = width pr,
                               road_to_lot_mapping = lotIdsOf lotInfos (road_id pr),
                               entry_points = entry_points pr\<rparr>) (publicRoads st);
                 internalRoadsOut =
                   map (\<lambda>r. let polyOpen = normalizeCCW (polygon r) in
                             \<lparr>road_id = road_id r, width = width r,
                              road_to_lot_mapping = lotIdsOf lotInfos (road_id r),
                              polygon = (if length polyOpen \<ge> 3 then ensureClosedLoop polyOpen
                                         else polyOpen)\<rparr>) (internalRoads st)
             in Some \<lparr>doc_input = \<lparr>land_id = landId se, in_boundary = boundaryClosedLoop,
                                 roads = publicRoadsOut\<rparr>,
                      doc_output = \<lparr>internal_roads = internalRoadsOut,
                                 out_lots =
                                   map (\<lambda>li. \<lparr>lot_id = info_id li,
                                               lot_polygon = (if length (polygonOpen li) \<ge> 3
                                                              then ensureClosedLoop (polygonOpen li)
                                                              else polygonOpen li),
                                               front_road = front li,
                                               area = info_area li\<rparr>) lotInfos\<rparr>\<rparr>)"

section \<open>History: undo after a recorded mutation\<close>

lemma makeSnapshot_restoreSnapshot [simp]: "makeSnapshot (restoreSnapshot s st) = s"
  by (simp add: makeSnapshot_def restoreSnapshot_def)

lemma makeSnapshot_history_update [simp]: "makeSnapshot (st\<lparr>history := h\<rparr>) = makeSnapshot st"
  by (simp add: makeSnapshot_def)

lemma makeSnapshot_future_update [simp]: "makeSnapshot (st\<lparr>future := h\<rparr>) = makeSnapshot st"
  by (simp add: makeSnapshot_def)

lemma makeSnapshot_selection_update [simp]: "makeSnapshot (st\<lparr>selection := x\<rparr>) = makeSnapshot st"
  by (simp add: makeSnapshot_def)

lemma history_restoreSnapshot [simp]: "history (restoreSnapshot s st) = history st"
  by (simp add: restoreSnapshot_def)

lemma future_restoreSnapshot [simp]: "future (restoreSnapshot s st) = future st"
  by (simp add: restoreSnapshot_def)

lemma undo_nonempty:
  assumes "history s \<noteq> []"
  shows "history (undo s) = butlast (history s)"
    and "future (undo s) = makeSnapshot s # future s"
    and "makeSnapshot (undo s) = last (history s)"
  using assms by (simp_all add: undo_def undoHistory_def Let_def)

lemma undo_empty: "history s = [] \<Longrightarrow> undo s = s"
  by (simp add: undo_def undoHistory_def)

text \<open>
  Claim C5.  \<^verbatim>\<open>pushHistory\<close> appends the snapshot of the state before the change to the
  undo stack and empties the redo stack.  \<^verbatim>\<open>undoHistory\<close>, on a non-empty undo stack,
  removes its top, puts the snapshot of the current state at the front of the redo stack and
  restores the removed snapshot.  Hence, for any mutation \<open>f\<close> of the scene that leaves
  the two stacks alone, one undo after \<open>pushHistory\<close> followed by \<open>f\<close> gives back the
  persistent state from before the mutation (and the undo stack from before the push).
\<close>

theorem pushHistory_then_undo_restores:
  fixes st :: app and f :: "app \<Rightarrow> app"
  assumes "history (f (pushHistory st st)) = history (pushHistory st st)"
    and "future (f (pushHistory st st)) = future (pushHistory st st)"
  shows "pushHistory st st = st\<lparr>history := history st @ [makeSnapshot st], future := []\<rparr>
       \<and> (\<forall>s. history s \<noteq> [] \<longrightarrow>
              history (undo s) = butlast (history s)
            \<and> future (undo s) = makeSnapshot s # future s
            \<and> makeSnapshot (undo s) = last (history s))
       \<and> makeSnapshot (undo (f (pushHistory st st))) = makeSnapshot st
       \<and> history (undo (f (pushHistory st st))) = history st
       \<and> future (undo (f (pushHistory st st))) = [makeSnapshot (f (pushHistory st st))]"
proof -
  let ?s1 = "f (pushHistory st st)"
  have h: "history ?s1 = history st @ [makeSnapshot st]" and fu: "future ?s1 = []"
    using assms by (simp_all add: pushHistory_def)
  then have ne: "history ?s1 \<noteq> []" by simp
  show ?thesis
    using undo_nonempty [OF ne] h fu
    by (simp add: pushHistory_def undo_nonempty)
qed

text \<open>A scene with one square lot, whose edge 0 is selected.\<close>



section \<open>Deleting an edge\<close>

lemma length_splice1: "i < length xs \<Longrightarrow> length (splice1 i xs) = length xs - 1"
  by (simp add: splice1_def)

lemma nth_splice1:
  "i < length xs \<Longrightarrow> j < length xs - 1 \<Longrightarrow> splice1 i xs ! j = (if j < i then xs ! j else xs ! Suc j)"
  by (auto simp add: splice1_def nth_append min_def)

definition lotA :: lot where
  "lotA = \<lparr>lot_id = ''L001-01'', lot_polygon = [(0, 0), (4, 0), (4, 4), (0, 4)], front_road = None\<rparr>"

definition sceneA :: app where
  "sceneA = \<lparr>boundary = [], boundaryClosed = False, publicRoads = [], internalRoads = [],
     lots = [lotA], history = [], future = [],
     selection = Some \<lparr>kind = Lot, index = 0, vertexIndex = None, edgeIndex = Some 0\<rparr>,
     activePublicIdx = - 1\<rparr>"

theorem pushHistory_then_undo_restores_witness:
  "history ((\<lambda>s. s\<lparr>lots := []\<rparr>) (pushHistory sceneA sceneA)) = history (pushHistory sceneA sceneA)
   \<and> future ((\<lambda>s. s\<lparr>lots := []\<rparr>) (pushHistory sceneA sceneA)) = future (pushHistory sceneA sceneA)
   \<and> lots ((\<lambda>s. s\<lparr>lots := []\<rparr>) (pushHistory sceneA sceneA)) = []
   \<and> makeSnapshot (undo ((\<lambda>s. s\<lparr>lots := []\<rparr>) (pushHistory sceneA sceneA))) = makeSnapshot sceneA
   \<and> history (undo ((\<lambda>s. s\<lparr>lots := []\<rparr>) (pushHistory sceneA sceneA))) = []"
  using pushHistory_then_undo_restores [of "\<lambda>s. s\<lparr>lots := []\<rparr>" sceneA]
  by (simp add: sceneA_def)

lemma onDeleteSelection_edge_history:
  assumes "selection st = Some sel" and "edgeIndex sel = Some e"
    and "onDeleteSelection st = Inr st'"
  shows "history st' = history st @ [makeSnapshot st, makeSnapshot st]"
    and "future st' = []"
  using assms
  by (auto simp add: onDeleteSelection_def deleteEdge_def pushHistory_def Let_def
      split: sum.splits kind.splits if_splits)


definition deletedA :: app where
  "deletedA = sceneA\<lparr>lots := [lotA\<lparr>lot_polygon := [(0, 0), (4, 4), (0, 4)]\<rparr>],
     history := [makeSnapshot sceneA, makeSnapshot sceneA], future := [], selection := None\<rparr>"

lemma onDeleteSelection_sceneA: "onDeleteSelection sceneA = Inr deletedA"
  by (simp add: onDeleteSelection_def deleteEdge_def deleteEdgeLots_def pushHistory_def
      sceneA_def deletedA_def lotA_def splice1_def Let_def makeSnapshot_def)

text \<open>
  Claim C10, as amended.  Deleting a selected edge runs \<^verbatim>\<open>pushHistory\<close> twice, in
  \<^verbatim>\<open>onDeleteSelection\<close> and again in \<^verbatim>\<open>deleteEdge\<close>, both with the snapshot of the
  state before the deletion: the undo stack grows by two equal snapshots and the redo stack is
  emptied.  The first undo already restores the state from before the deletion; the second
  undo restores the same state again and only then is the undo stack back to what it was.
\<close>

theorem edge_deletion_pushes_two_snapshots:
  assumes "selection st = Some sel" and "edgeIndex sel = Some e"
    and "onDeleteSelection st = Inr st'"
  shows "history st' = history st @ [makeSnapshot st, makeSnapshot st]
       \<and> future st' = []
       \<and> makeSnapshot (undo st') = makeSnapshot st
       \<and> history (undo st') = history st @ [makeSnapshot st]
       \<and> makeSnapshot (undo (undo st')) = makeSnapshot st
       \<and> history (undo (undo st')) = history st"
proof -
  have h: "history st' = history st @ [makeSnapshot st, makeSnapshot st]"
    using onDeleteSelection_edge_history(1) [OF assms] .
  have f: "future st' = []"
    using onDeleteSelection_edge_history(2) [OF assms] .
  have ne: "history st' \<noteq> []" using h by simp
  have u1: "history (undo st') = history st @ [makeSnapshot st]"
    using undo_nonempty(1) [OF ne] h by (simp add: butlast_append)
  have s1: "makeSnapshot (undo st') = makeSnapshot st"
    using undo_nonempty(3) [OF ne] h by simp
  have ne2: "history (undo st') \<noteq> []" using u1 by simp
  have u2: "history (undo (undo st')) = history st"
    using undo_nonempty(1) [OF ne2] u1 by simp
  have s2: "makeSnapshot (undo (undo st')) = makeSnapshot st"
    using undo_nonempty(3) [OF ne2] u1 by simp
  show ?thesis using h f u1 s1 u2 s2 by simp
qed

theorem edge_deletion_pushes_two_snapshots_witness:
  "selection sceneA = Some \<lparr>kind = Lot, index = 0, vertexIndex = None, edgeIndex = Some 0\<rparr>
   \<and> onDeleteSelection sceneA = Inr deletedA
   \<and> history deletedA = [makeSnapshot sceneA, makeSnapshot sceneA]
   \<and> makeSnapshot (undo deletedA) = makeSnapshot sceneA
   \<and> history (undo (undo deletedA)) = []"
  using edge_deletion_pushes_two_snapshots
    [of sceneA "\<lparr>kind = Lot, index = 0, vertexIndex = None, edgeIndex = Some 0\<rparr>" 0 deletedA]
    onDeleteSelection_sceneA
  by (simp add: sceneA_def)

text \<open>
  On a scene with one square lot whose edge 0 is selected, the deletion changes the lots and
  a single undo brings the scene back: reverting the deletion does not take two undos.
\<close>

theorem edge_deletion_one_undo_counterexample:
  "onDeleteSelection sceneA = Inr deletedA
   \<and> makeSnapshot deletedA \<noteq> makeSnapshot sceneA
   \<and> makeSnapshot (undo deletedA) = makeSnapshot sceneA"
proof -
  have "history deletedA \<noteq> []" by (simp add: deletedA_def)
  then have "makeSnapshot (undo deletedA) = last (history deletedA)"
    by (rule undo_nonempty(3))
  moreover have "last (history deletedA) = makeSnapshot sceneA"
    by (simp add: deletedA_def)
  moreover have "makeSnapshot deletedA \<noteq> makeSnapshot sceneA"
    by (simp add: deletedA_def sceneA_def makeSnapshot_def lotA_def)
  ultimately show ?thesis using onDeleteSelection_sceneA by simp
qed

text \<open>
  Claim C4.  Deleting the selected edge \<open>e\<close> of a polygon with \<open>n \<ge> 3\<close> vertices (every
  polygon of the scene has at least three) removes the vertex at index \<open>(e + 1) mod n\<close>:
  the vertices before it keep their index, those after it move down by one, and \<open>n - 1\<close>
  vertices remain.  When \<open>n > 3\<close> the entity keeps the shorter polygon; when \<open>n = 3\<close> the
  lot or road is removed from its list, and the boundary is emptied and marked open.
  Nothing else of the scene changes.
\<close>

theorem deleteEdge_removes_successor_vertex:
  assumes "selection st = Some sel" and "edgeIndex sel = Some e"
  shows "(kind sel = Lot \<and> index sel < length (lots st)
            \<and> 3 \<le> length (lot_polygon (lots st ! index sel)) \<longrightarrow>
          (let poly = lot_polygon (lots st ! index sel); n = length poly;
               rm = (e + 1) mod n; poly' = splice1 rm poly in
           length poly' = n - 1
           \<and> (\<forall>j < n - 1. poly' ! j = (if j < rm then poly ! j else poly ! Suc j))
           \<and> (\<exists>st'. onDeleteSelection st = Inr st'
                \<and> lots st' = (if 3 < n then (lots st)[index sel := (lots st ! index sel)\<lparr>lot_polygon := poly'\<rparr>]
                              else splice1 (index sel) (lots st))
                \<and> internalRoads st' = internalRoads st \<and> publicRoads st' = publicRoads st
                \<and> boundary st' = boundary st \<and> boundaryClosed st' = boundaryClosed st)))
       \<and> (kind sel = Internal \<and> index sel < length (internalRoads st)
            \<and> 3 \<le> length (polygon (internalRoads st ! index sel)) \<longrightarrow>
          (let poly = polygon (internalRoads st ! index sel); n = length poly;
               rm = (e + 1) mod n; poly' = splice1 rm poly in
           length poly' = n - 1
           \<and> (\<forall>j < n - 1. poly' ! j = (if j < rm then poly ! j else poly ! Suc j))
           \<and> (\<exists>st'. onDeleteSelection st = Inr st'
                \<and> internalRoads st' =
                    (if 3 < n then (internalRoads st)[index sel := (internalRoads st ! index sel)\<lparr>polygon := poly'\<rparr>]
                     else splice1 (index sel) (internalRoads st))
                \<and> lots st' = lots st \<and> publicRoads st' = publicRoads st
                \<and> boundary st' = boundary st \<and> boundaryClosed st' = boundaryClosed st)))
       \<and> (kind sel = Boundary \<and> 3 \<le> length (boundary st) \<longrightarrow>
          (let poly = boundary st; n = length poly;
               rm = (e + 1) mod n; poly' = splice1 rm poly in
           length poly' = n - 1
           \<and> (\<forall>j < n - 1. poly' ! j = (if j < rm then poly ! j else poly ! Suc j))
           \<and> (\<exists>st'. onDeleteSelection st = Inr st'
                \<and> boundary st' = (if 3 < n then poly' else [])
                \<and> boundaryClosed st' = (3 < n)
                \<and> lots st' = lots st \<and> publicRoads st' = publicRoads st
                \<and> internalRoads st' = internalRoads st)))"
proof (intro conjI impI)
  assume a: "kind sel = Lot \<and> index sel < length (lots st)
            \<and> 3 \<le> length (lot_polygon (lots st ! index sel))"
  let ?poly = "lot_polygon (lots st ! index sel)"
  have rm: "(e + 1) mod length ?poly < length ?poly"
    using a by (intro mod_less_divisor) auto
  show "let poly = lot_polygon (lots st ! index sel); n = length poly;
               rm = (e + 1) mod n; poly' = splice1 rm poly in
           length poly' = n - 1
           \<and> (\<forall>j < n - 1. poly' ! j = (if j < rm then poly ! j else poly ! Suc j))
           \<and> (\<exists>st'. onDeleteSelection st = Inr st'
                \<and> lots st' = (if 3 < n then (lots st)[index sel := (lots st ! index sel)\<lparr>lot_polygon := poly'\<rparr>]
                              else splice1 (index sel) (lots st))
                \<and> internalRoads st' = internalRoads st \<and> publicRoads st' = publicRoads st
                \<and> boundary st' = boundary st \<and> boundaryClosed st' = boundaryClosed st)"
    using a assms rm length_splice1 [OF rm] nth_splice1 [OF rm]
    by (auto simp add: Let_def onDeleteSelection_def deleteEdge_def deleteEdgeLots_def
        pushHistory_def)
next
  assume a: "kind sel = Internal \<and> index sel < length (internalRoads st)
            \<and> 3 \<le> length (polygon (internalRoads st ! index sel))"
  let ?poly = "polygon (internalRoads st ! index sel)"
  have rm: "(e + 1) mod length ?poly < length ?poly"
    using a by (intro mod_less_divisor) auto
  show "let poly = polygon (internalRoads st ! index sel); n = length poly;
               rm = (e + 1) mod n; poly' = splice1 rm poly in
           length poly' = n - 1
           \<and> (\<forall>j < n - 1. poly' ! j = (if j < rm then poly ! j else poly ! Suc j))
           \<and> (\<exists>st'. onDeleteSelection st = Inr st'
                \<and> internalRoads st' =
                    (if 3 < n then (internalRoads st)[index sel := (internalRoads st ! index sel)\<lparr>polygon := poly'\<rparr>]
                     else splice1 (index sel) (internalRoads st))
                \<and> lots st' = lots st \<and> publicRoads st' = publicRoads st
                \<and> boundary st' = boundary st \<and> boundaryClosed st' = boundaryClosed st)"
    using a assms rm length_splice1 [OF rm] nth_splice1 [OF rm]
    by (auto simp add: Let_def onDeleteSelection_def deleteEdge_def deleteEdgeRoads_def
        pushHistory_def)
next
  assume a: "kind sel = Boundary \<and> 3 \<le> length (boundary st)"
  let ?poly = "boundary st"
  have rm: "(e + 1) mod length ?poly < length ?poly"
    using a by (intro mod_less_divisor) auto
  show "let poly = boundary st; n = length poly;
               rm = (e + 1) mod n; poly' = splice1 rm poly in
           length poly' = n - 1
           \<and> (\<forall>j < n - 1. poly' ! j = (if j < rm then poly ! j else poly ! Suc j))
           \<and> (\<exists>st'. onDeleteSelection st = Inr st'
                \<and> boundary st' = (if 3 < n then poly' else [])
                \<and> boundaryClosed st' = (3 < n)
                \<and> lots st' = lots st \<and> publicRoads st' = publicRoads st
                \<and> internalRoads st' = internalRoads st)"
    using a assms rm length_splice1 [OF rm] nth_splice1 [OF rm]
    by (auto simp add: Let_def onDeleteSelection_def deleteEdge_def pushHistory_def)
qed


definition roadB :: internalRoad where
  "roadB = \<lparr>road_id = ''R001'', width = 6, road_to_lot_mapping = [],
     polygon = [(0, 0), (4, 0), (4, 4)]\<rparr>"

definition sceneB :: app where
  "sceneB = \<lparr>boundary = [(0, 0), (9, 0), (9, 9), (0, 9)], boundaryClosed = True,
     publicRoads = [], internalRoads = [roadB], lots = [lotA], history = [], future = [],
     selection = Some \<lparr>kind = Internal, index = 0, vertexIndex = None, edgeIndex = Some 2\<rparr>,
     activePublicIdx = - 1\<rparr>"

definition sceneC :: app where
  "sceneC = sceneB\<lparr>selection :=
     Some \<lparr>kind = Boundary, index = 0, vertexIndex = None, edgeIndex = Some 3\<rparr>\<rparr>"

theorem deleteEdge_removes_successor_vertex_witness:
  "(selection sceneA = Some \<lparr>kind = Lot, index = 0, vertexIndex = None, edgeIndex = Some 0\<rparr>
    \<and> 0 < length (lots sceneA) \<and> 3 \<le> length (lot_polygon (lots sceneA ! 0))
    \<and> (\<exists>st'. onDeleteSelection sceneA = Inr st'
          \<and> lots st' = [lotA\<lparr>lot_polygon := [(0, 0), (4, 4), (0, 4)]\<rparr>]))
   \<and> (selection sceneB = Some \<lparr>kind = Internal, index = 0, vertexIndex = None, edgeIndex = Some 2\<rparr>
    \<and> 0 < length (internalRoads sceneB) \<and> 3 \<le> length (polygon (internalRoads sceneB ! 0))
    \<and> (\<exists>st'. onDeleteSelection sceneB = Inr st' \<and> internalRoads st' = [] \<and> lots st' = [lotA]))
   \<and> (selection sceneC = Some \<lparr>kind = Boundary, index = 0, vertexIndex = None, edgeIndex = Some 3\<rparr>
    \<and> 3 \<le> length (boundary sceneC)
    \<and> (\<exists>st'. onDeleteSelection sceneC = Inr st'
          \<and> boundary st' = [(9, 0), (9, 9), (0, 9)] \<and> boundaryClosed st'))"
  using deleteEdge_removes_successor_vertex
      [of sceneA "\<lparr>kind = Lot, index = 0, vertexIndex = None, edgeIndex = Some 0\<rparr>" 0]
    deleteEdge_removes_successor_vertex
      [of sceneB "\<lparr>kind = Internal, index = 0, vertexIndex = None, edgeIndex = Some 2\<rparr>" 2]
    deleteEdge_removes_successor_vertex
      [of sceneC "\<lparr>kind = Boundary, index = 0, vertexIndex = None, edgeIndex = Some 3\<rparr>" 3]
  by (auto simp add: sceneA_def sceneB_def sceneC_def lotA_def roadB_def splice1_def Let_def)

section \<open>Scaling a polygon to a target area\<close>

text \<open>The square of the program's own smoke test.\<close>

definition square10 :: "point list" where
  "square10 = [(0, 0), (10, 0), (10, 10), (0, 10)]"

lemma upt4: "[0..<4] = [0, 1, 2, 3]"
  by (simp add: upt_rec)

lemma shoelaceArea4:
  "shoelaceArea [a, b, c, d] =
     \<bar>(fst a * snd b - fst b * snd a) + (fst b * snd c - fst c * snd b)
      + (fst c * snd d - fst d * snd c) + (fst d * snd a - fst a * snd d)\<bar> / 2"
  by (simp add: shoelaceArea_def upt4)

lemma polygonCentroid_square10: "polygonCentroid square10 = (5, 5)"
  by (simp add: polygonCentroid_def square10_def upt4 Let_def)

lemma sqrt2_lower: "1414 / 1000 < sqrt 2"
  by (rule real_less_rsqrt) (simp add: power2_eq_square)

lemma sqrt2_upper: "sqrt 2 < 1415 / 1000"
  by (rule real_less_lsqrt) (simp_all add: power2_eq_square)

lemma toFixed_up: "toFixed 2 (5 + sqrt 2 * 5) = 1207 / 100"
proof -
  have "\<lfloor>\<bar>5 + sqrt 2 * 5\<bar> * 10 ^ 2 + 1 / 2\<rfloor> = 1207"
    using sqrt2_lower sqrt2_upper by (simp add: floor_eq_iff abs_if)
  moreover have "sgn (5 + sqrt 2 * 5) = 1"
    using sqrt2_lower by (simp add: sgn_if)
  ultimately show ?thesis by (simp add: toFixed_def)
qed

lemma toFixed_down: "toFixed 2 (5 - sqrt 2 * 5) = - (207 / 100)"
proof -
  have neg: "5 - sqrt 2 * 5 < 0" using sqrt2_lower by simp
  then have "\<bar>5 - sqrt 2 * 5\<bar> = sqrt 2 * 5 - 5" by simp
  then have "\<lfloor>\<bar>5 - sqrt 2 * 5\<bar> * 10 ^ 2 + 1 / 2\<rfloor> = 207"
    using sqrt2_lower sqrt2_upper by (simp add: floor_eq_iff)
  moreover have "sgn (5 - sqrt 2 * 5) = - 1"
    using neg by (simp add: sgn_if)
  ultimately show ?thesis by (simp add: toFixed_def)
qed

text \<open>
  Claim C8 on the code.  The square of area 100 is scaled to the target 200 with the factor
  \<open>sqrt 2\<close> about its centroid \<open>(5, 5)\<close>, and \<^verbatim>\<open>transformPoint\<close> then rounds every
  coordinate to two decimals: the vertices become \<open>-2.07\<close> and \<open>12.07\<close>, the area
  \<open>14.14\<^sup>2 = 199.9396\<close>, which is not within \<open>10\<^sup>-\<^sup>6\<close> of 200.
\<close>

theorem scalePolygonToArea_square_rounds:
  "shoelaceArea square10 = 100
   \<and> scalePolygonToArea square10 200 =
       [(- (207 / 100), - (207 / 100)), (1207 / 100, - (207 / 100)),
        (1207 / 100, 1207 / 100), (- (207 / 100), 1207 / 100)]
   \<and> shoelaceArea (scalePolygonToArea square10 200) = 1999396 / 10000
   \<and> \<not> \<bar>shoelaceArea (scalePolygonToArea square10 200) - 200\<bar> \<le> 1 / 10 ^ 6"
proof -
  have a: "shoelaceArea square10 = 100"
    by (simp add: square10_def shoelaceArea4)
  have s: "scalePolygonToArea square10 200 =
       [(- (207 / 100), - (207 / 100)), (1207 / 100, - (207 / 100)),
        (1207 / 100, 1207 / 100), (- (207 / 100), 1207 / 100)]"
    by (simp add: scalePolygonToArea_def a polygonCentroid_square10 transformPoint_def Let_def)
      (simp add: square10_def toFixed_up toFixed_down)
  have b: "shoelaceArea (scalePolygonToArea square10 200) = 1999396 / 10000"
    unfolding s by (simp add: shoelaceArea4)
  show ?thesis using a s b by simp
qed

section \<open>Frontage: internal roads\<close>

text \<open>The test that the loops apply to one lot edge and one road edge.\<close>

definition edgePairNear :: "real \<Rightarrow> point \<times> point \<Rightarrow> point \<times> point \<Rightarrow> bool" where
  "edgePairNear tolUnits ab cd =
     (segmentsIntersectOrTouch (fst ab) (snd ab) (fst cd) (snd cd)
      \<or> (tolUnits > 0 \<and> segmentDistance (fst ab) (snd ab) (fst cd) (snd cd) \<le> tolUnits))"

text \<open>
  The frontage relation in the words of the specification: some edge of the lot polygon
  intersects or touches some of the given segments, or (for a positive tolerance) lies within
  the tolerance of one.
\<close>

definition spec_fronts :: "point list \<Rightarrow> (point \<times> point) list \<Rightarrow> real \<Rightarrow> bool" where
  "spec_fronts lotPoly segs tolUnits =
     (\<exists>ab \<in> set (edgesFromPolygon lotPoly True). \<exists>cd \<in> set segs. edgePairNear tolUnits ab cd)"

lemma edgeTouchesAny_iff:
  "edgeTouchesAny ab segs tolUnits \<longleftrightarrow> (\<exists>cd \<in> set segs. edgePairNear tolUnits ab cd)"
  by (induction segs) (auto simp add: edgePairNear_def)

lemma edgesTouch_iff:
  "edgesTouch es segs tolUnits \<longleftrightarrow> (\<exists>ab \<in> set es. \<exists>cd \<in> set segs. edgePairNear tolUnits ab cd)"
  by (induction es) (auto simp add: edgeTouchesAny_iff)

lemma edgesTouch_spec_fronts:
  "edgesTouch (edgesFromPolygon lotPoly True) segs tolUnits = spec_fronts lotPoly segs tolUnits"
  by (simp add: edgesTouch_iff spec_fronts_def)

lemma internalLoop_find:
  "internalLoop (edgesFromPolygon lotPoly True) tolUnits rs =
     map_option road_id
       (find (\<lambda>r. spec_fronts lotPoly (edgesFromPolygon (polygon r) True) tolUnits) rs)"
  by (induction rs) (simp_all add: edgesTouch_spec_fronts)

lemma internalLoop_first:
  assumes "i < length rs"
    and "spec_fronts lotPoly (edgesFromPolygon (polygon (rs ! i)) True) tolUnits"
    and "\<forall>j < i. \<not> spec_fronts lotPoly (edgesFromPolygon (polygon (rs ! j)) True) tolUnits"
  shows "internalLoop (edgesFromPolygon lotPoly True) tolUnits rs = Some (road_id (rs ! i))"
  using assms
proof (induction rs arbitrary: i)
  case Nil
  then show ?case by simp
next
  case (Cons r rs)
  show ?case
  proof (cases i)
    case 0
    with Cons.prems show ?thesis by (simp add: edgesTouch_spec_fronts)
  next
    case (Suc k)
    with Cons.prems have "\<not> spec_fronts lotPoly (edgesFromPolygon (polygon r) True) tolUnits"
      by auto
    moreover have "internalLoop (edgesFromPolygon lotPoly True) tolUnits rs = Some (road_id (rs ! k))"
      using Cons.prems Suc by (intro Cons.IH) auto
    ultimately show ?thesis using Suc by (simp add: edgesTouch_spec_fronts)
  qed
qed

text \<open>
  Claim C1.  For a lot polygon with at least three vertices, if the internal road at position
  \<open>i\<close> of the list fronts the lot (some lot edge intersects or touches some edge of the road
  polygon, or lies within a positive tolerance of one) and no internal road before it does,
  the resolver returns the id of that road, whatever the boundary and the public roads are.
\<close>

theorem computeFrontRoadForLot_internal_first:
  assumes "3 \<le> length lotPoly"
    and "i < length (internalRoads c)"
    and "spec_fronts lotPoly (edgesFromPolygon (polygon (internalRoads c ! i)) True) tolUnits"
    and "\<forall>j < i. \<not> spec_fronts lotPoly (edgesFromPolygon (polygon (internalRoads c ! j)) True) tolUnits"
  shows "computeFrontRoadForLot lotPoly c tolUnits = Some (Some (road_id (internalRoads c ! i)))"
  using assms(1) internalLoop_first [OF assms(2-4)]
  by (simp add: computeFrontRoadForLot_def)


lemma edgesFromPolygon4:
  "edgesFromPolygon [a, b, c, d] True = [(a, b), (b, c), (c, d), (d, a)]"
  by (simp add: edgesFromPolygon_def upt_rec)

lemma segmentDistance_le_iff:
  "0 \<le> tolUnits \<Longrightarrow>
   segmentDistance a b c d \<le> tolUnits \<longleftrightarrow>
     min (min (min (d2 (pointSegProjection a c d)) (d2 (pointSegProjection b c d)))
              (d2 (pointSegProjection c a b)))
         (d2 (pointSegProjection d a b)) \<le> tolUnits * tolUnits"
proof -
  assume t: "0 \<le> tolUnits"
  have "sqrt x \<le> tolUnits \<longleftrightarrow> x \<le> tolUnits * tolUnits" for x
    using t real_sqrt_le_iff [of x "tolUnits * tolUnits"] by simp
  then show ?thesis by (simp add: segmentDistance_def)
qed

definition lotW :: "point list" where
  "lotW = [(11, 1), (20, 1), (20, 9), (11, 9)]"

definition ctxW :: ctx where
  "ctxW = \<lparr>boundary = [(0, 0), (20, 0), (20, 10), (0, 10)], boundaryClosed = True,
     publicRoads = [\<lparr>road_id = ''R003'', width = 12, road_to_lot_mapping = [],
                     entry_points = [(20, 0), (20, 10)]\<rparr>],
     internalRoads = [\<lparr>road_id = ''R002'', width = 6, road_to_lot_mapping = [],
                       polygon = [(1, 1), (3, 1), (3, 3), (1, 3)]\<rparr>,
                      \<lparr>road_id = ''R001'', width = 6, road_to_lot_mapping = [],
                       polygon = [(9, 3), (11, 3), (11, 7), (9, 7)]\<rparr>]\<rparr>"

lemma lotW_not_R002:
  "\<not> spec_fronts lotW [((1, 1), (3, 1)), ((3, 1), (3, 3)), ((3, 3), (1, 3)), ((1, 3), (1, 1))] 0"
  by (simp add: spec_fronts_def lotW_def edgesFromPolygon4 edgePairNear_def
      segmentsIntersectOrTouch_def orient_def onSegment_def Let_def)

lemma lotW_R001:
  "spec_fronts lotW [((9, 3), (11, 3)), ((11, 3), (11, 7)), ((11, 7), (9, 7)), ((9, 7), (9, 3))] 0"
proof -
  have "edgePairNear 0 ((11, 9), (11, 1)) ((11, 3), (11, 7))"
    by (simp add: edgePairNear_def segmentsIntersectOrTouch_def orient_def onSegment_def Let_def)
  then show ?thesis
    by (simp add: spec_fronts_def lotW_def edgesFromPolygon4)
qed

text \<open>The same road and a lot one unit to the right of it: within the tolerance 1.\<close>

definition lotV :: "point list" where
  "lotV = [(12, 1), (20, 1), (20, 9), (12, 9)]"

lemma lotV_R001:
  "spec_fronts lotV [((9, 3), (11, 3)), ((11, 3), (11, 7)), ((11, 7), (9, 7)), ((9, 7), (9, 3))] 1"
proof -
  have "edgePairNear 1 ((12, 9), (12, 1)) ((11, 3), (11, 7))"
    by (simp add: edgePairNear_def segmentDistance_le_iff pointSegProjection_def dist2_def Let_def)
  then show ?thesis
    by (simp add: spec_fronts_def lotV_def edgesFromPolygon4)
qed

theorem computeFrontRoadForLot_internal_first_witness:
  "computeFrontRoadForLot lotW ctxW 0 = Some (Some ''R001'')
   \<and> computeFrontRoadForLot lotV (ctxW\<lparr>internalRoads := tl (internalRoads ctxW)\<rparr>) 1
       = Some (Some ''R001'')"
proof -
  have "3 \<le> length lotW" "1 < length (internalRoads ctxW)"
    by (simp_all add: lotW_def ctxW_def)
  moreover have "spec_fronts lotW (edgesFromPolygon (polygon (internalRoads ctxW ! 1)) True) 0"
    using lotW_R001 by (simp add: ctxW_def edgesFromPolygon4)
  moreover have "\<forall>j < 1. \<not> spec_fronts lotW (edgesFromPolygon (polygon (internalRoads ctxW ! j)) True) 0"
    using lotW_not_R002 by (simp add: ctxW_def edgesFromPolygon4)
  ultimately have a: "computeFrontRoadForLot lotW ctxW 0 = Some (Some (road_id (internalRoads ctxW ! 1)))"
    by (rule computeFrontRoadForLot_internal_first)
  let ?c = "ctxW\<lparr>internalRoads := tl (internalRoads ctxW)\<rparr>"
  have "3 \<le> length lotV" "0 < length (internalRoads ?c)"
    by (simp_all add: lotV_def ctxW_def)
  moreover have "spec_fronts lotV (edgesFromPolygon (polygon (internalRoads ?c ! 0)) True) 1"
    using lotV_R001 by (simp add: ctxW_def edgesFromPolygon4)
  moreover have "\<forall>j < 0. \<not> spec_fronts lotV (edgesFromPolygon (polygon (internalRoads ?c ! j)) True) 1"
    by simp
  ultimately have b: "computeFrontRoadForLot lotV ?c 1 = Some (Some (road_id (internalRoads ?c ! 0)))"
    by (rule computeFrontRoadForLot_internal_first)
  show ?thesis using a b by (simp add: ctxW_def)
qed

section \<open>Frontage: public roads\<close>

text \<open>\<open>k\<close> steps forward along the ring from index \<open>i\<close>; the number of steps from \<open>i\<close>
  forward to \<open>j\<close> on a ring of \<open>n\<close> vertices; the walk from \<open>i\<close> to \<open>j\<close>.\<close>

fun ringSteps :: "point list \<Rightarrow> nat \<Rightarrow> nat \<Rightarrow> (point \<times> point) list" where
  "ringSteps bnd i 0 = []"
| "ringSteps bnd i (Suc k) =
     (bnd ! i, bnd ! ((i + 1) mod length bnd)) # ringSteps bnd ((i + 1) mod length bnd) k"

definition ringCount :: "nat \<Rightarrow> nat \<Rightarrow> nat \<Rightarrow> nat" where
  "ringCount n i j = (if i \<le> j then j - i else j + n - i)"

definition ringWalk :: "point list \<Rightarrow> nat \<Rightarrow> nat \<Rightarrow> (point \<times> point) list" where
  "ringWalk bnd i j = ringSteps bnd i (ringCount (length bnd) i j)"

lemma ringCount_next:
  assumes "i < n" and "j < n" and "ringCount n i j = Suc m"
  shows "ringCount n ((i + 1) mod n) j = m"
proof (cases "i + 1 < n")
  case True
  then have "(i + 1) mod n = i + 1" by simp
  then show ?thesis using assms by (auto simp add: ringCount_def split: if_splits)
next
  case False
  then have e: "i + 1 = n" using assms(1) by simp
  then have "(i + 1) mod n = 0" by simp
  then show ?thesis using assms e by (auto simp add: ringCount_def split: if_splits)
qed

lemma ringCount_zero: "i < n \<Longrightarrow> j < n \<Longrightarrow> ringCount n i j = 0 \<Longrightarrow> i = j"
  by (auto simp add: ringCount_def split: if_splits)

lemma ringCount_same [simp]: "ringCount n i i = 0"
  by (simp add: ringCount_def)

lemma pathSegsLoop_ringSteps:
  assumes "j < length bnd"
  shows "i < length bnd \<Longrightarrow> ringCount (length bnd) i j = m \<Longrightarrow>
         pathSegsLoop bnd i j segs = Some (segs @ ringSteps bnd i m)"
proof (induction m arbitrary: i segs)
  case 0
  then have "i = j" using assms ringCount_zero by blast
  then show ?case by (subst pathSegsLoop.simps) simp
next
  case (Suc m)
  have ne: "i \<noteq> j" using Suc.prems(2) by auto
  have nxt: "(i + 1) mod length bnd < length bnd"
    using Suc.prems(1) by (intro mod_less_divisor) auto
  have m: "ringCount (length bnd) ((i + 1) mod length bnd) j = m"
    using ringCount_next [OF Suc.prems(1) assms Suc.prems(2)] .
  show ?case
    using ne Suc.IH [OF nxt m]
    by (subst pathSegsLoop.simps) simp
qed

lemma pathSegsBetweenIndices_ringWalk:
  "i < length bnd \<Longrightarrow> j < length bnd \<Longrightarrow> pathSegsBetweenIndices bnd i j = Some (ringWalk bnd i j)"
  by (simp add: pathSegsBetweenIndices_def ringWalk_def pathSegsLoop_ringSteps)


text \<open>\<open>i\<close> is the index of the boundary vertex nearest to \<open>p\<close>, the first such index.\<close>

definition isNearest :: "point \<Rightarrow> point list \<Rightarrow> nat \<Rightarrow> bool" where
  "isNearest p bnd i \<longleftrightarrow>
     i < length bnd
     \<and> (\<forall>k < length bnd. distance p (bnd ! i) \<le> distance p (bnd ! k))
     \<and> (\<forall>k < i. distance p (bnd ! i) < distance p (bnd ! k))"

definition nearestStep :: "point \<Rightarrow> point list \<Rightarrow> nat \<Rightarrow> (nat \<times> real) option \<Rightarrow> (nat \<times> real) option" where
  "nearestStep pt bnd i best =
     (case best of None \<Rightarrow> Some (i, distance pt (bnd ! i))
      | Some (bestI, bestD) \<Rightarrow>
          if distance pt (bnd ! i) < bestD then Some (i, distance pt (bnd ! i)) else best)"

lemma nearestBoundaryIndex_fold:
  "nearestBoundaryIndex pt bnd = map_option fst (fold (nearestStep pt bnd) [0..<length bnd] None)"
  by (simp add: nearestBoundaryIndex_def nearestStep_def [abs_def])

lemma nearest_fold_invariant:
  "0 < m \<Longrightarrow> m \<le> length bnd \<Longrightarrow>
   \<exists>i. fold (nearestStep pt bnd) [0..<m] None = Some (i, distance pt (bnd ! i))
       \<and> i < m
       \<and> (\<forall>k < m. distance pt (bnd ! i) \<le> distance pt (bnd ! k))
       \<and> (\<forall>k < i. distance pt (bnd ! i) < distance pt (bnd ! k))"
proof (induction m)
  case 0
  then show ?case by simp
next
  case (Suc m)
  show ?case
  proof (cases "m = 0")
    case True
    then show ?thesis by (simp add: nearestStep_def)
  next
    case False
    then obtain i where i: "fold (nearestStep pt bnd) [0..<m] None = Some (i, distance pt (bnd ! i))"
      "i < m" "\<forall>k < m. distance pt (bnd ! i) \<le> distance pt (bnd ! k)"
      "\<forall>k < i. distance pt (bnd ! i) < distance pt (bnd ! k)"
      using Suc by auto
    show ?thesis
    proof (cases "distance pt (bnd ! m) < distance pt (bnd ! i)")
      case True
      have "fold (nearestStep pt bnd) [0..<Suc m] None = Some (m, distance pt (bnd ! m))"
        using i(1) True by (simp add: nearestStep_def)
      moreover have "\<forall>k < Suc m. distance pt (bnd ! m) \<le> distance pt (bnd ! k)"
        using i(3) True by (auto simp add: less_Suc_eq intro: less_imp_le order_trans)
      moreover have "\<forall>k < m. distance pt (bnd ! m) < distance pt (bnd ! k)"
        using i(3) True by (auto intro: less_le_trans)
      ultimately show ?thesis by auto
    next
      case False
      have "fold (nearestStep pt bnd) [0..<Suc m] None = Some (i, distance pt (bnd ! i))"
        using i(1) False by (simp add: nearestStep_def)
      moreover have "\<forall>k < Suc m. distance pt (bnd ! i) \<le> distance pt (bnd ! k)"
        using i(3) False by (auto simp add: less_Suc_eq)
      ultimately show ?thesis using i(2) i(4) by auto
    qed
  qed
qed

lemma isNearest_unique: "isNearest p bnd i \<Longrightarrow> isNearest p bnd j \<Longrightarrow> i = j"
proof (rule ccontr)
  assume a: "isNearest p bnd i" "isNearest p bnd j" and ne: "i \<noteq> j"
  show False
  proof (cases "i < j")
    case True
    then have "distance p (bnd ! j) < distance p (bnd ! i)" using a(2) by (simp add: isNearest_def)
    moreover have "distance p (bnd ! i) \<le> distance p (bnd ! j)" using a by (simp add: isNearest_def)
    ultimately show False by simp
  next
    case False
    then have "j < i" using ne by simp
    then have "distance p (bnd ! i) < distance p (bnd ! j)" using a(1) by (simp add: isNearest_def)
    moreover have "distance p (bnd ! j) \<le> distance p (bnd ! i)" using a by (simp add: isNearest_def)
    ultimately show False by simp
  qed
qed

lemma nearestBoundaryIndex_isNearest:
  assumes "bnd \<noteq> []"
  shows "\<exists>i. nearestBoundaryIndex p bnd = Some i \<and> isNearest p bnd i"
proof -
  have "0 < length bnd" using assms by simp
  from nearest_fold_invariant [OF this order_refl, of p]
  show ?thesis by (auto simp add: nearestBoundaryIndex_fold isNearest_def)
qed

lemma nearestBoundaryIndex_iff:
  assumes "bnd \<noteq> []"
  shows "nearestBoundaryIndex p bnd = Some i \<longleftrightarrow> isNearest p bnd i"
proof
  assume "nearestBoundaryIndex p bnd = Some i"
  then show "isNearest p bnd i"
    using nearestBoundaryIndex_isNearest [OF assms, of p] by auto
next
  assume a: "isNearest p bnd i"
  obtain k where k: "nearestBoundaryIndex p bnd = Some k" "isNearest p bnd k"
    using nearestBoundaryIndex_isNearest [OF assms, of p] by blast
  then have "k = i" using isNearest_unique a by blast
  then show "nearestBoundaryIndex p bnd = Some i" using k by simp
qed


text \<open>
  The public-frontage arc between the boundary vertices \<open>iA\<close> and \<open>iB\<close>: the shorter of the
  walk from \<open>iA\<close> forward to \<open>iB\<close> and the walk from \<open>iB\<close> forward to \<open>iA\<close>, the first one
  when both are equally long.
\<close>

definition shorterWalk :: "point list \<Rightarrow> nat \<Rightarrow> nat \<Rightarrow> (point \<times> point) list" where
  "shorterWalk bnd iA iB =
     (if segsLen (ringWalk bnd iA iB) \<le> segsLen (ringWalk bnd iB iA)
      then ringWalk bnd iA iB else ringWalk bnd iB iA)"

text \<open>
  A lot fronts a public road, in the words of the specification: the road has at least two
  entry points, and some lot edge intersects, touches or lies within the tolerance of some
  segment of the arc between the boundary vertices nearest to its first two entry points.
\<close>

definition spec_publicFronts :: "point list \<Rightarrow> point list \<Rightarrow> real \<Rightarrow> publicRoad \<Rightarrow> bool" where
  "spec_publicFronts lotPoly bnd tolUnits pr \<longleftrightarrow>
     2 \<le> length (entry_points pr)
     \<and> (\<exists>iA < length bnd. \<exists>iB < length bnd.
           isNearest (entry_points pr ! 0) bnd iA \<and> isNearest (entry_points pr ! 1) bnd iB
           \<and> spec_fronts lotPoly (shorterWalk bnd iA iB) tolUnits)"

lemma spec_fronts_Nil [simp]: "\<not> spec_fronts lotPoly [] tolUnits"
  by (simp add: spec_fronts_def)

lemma ringWalk_same [simp]: "ringWalk bnd i i = []"
  by (simp add: ringWalk_def)

lemma spec_publicFronts_nearest:
  assumes "2 \<le> length (entry_points pr)"
    and "isNearest (entry_points pr ! 0) bnd iA" and "isNearest (entry_points pr ! 1) bnd iB"
  shows "spec_publicFronts lotPoly bnd tolUnits pr \<longleftrightarrow> spec_fronts lotPoly (shorterWalk bnd iA iB) tolUnits"
proof
  assume "spec_publicFronts lotPoly bnd tolUnits pr"
  then obtain a b where ab: "isNearest (entry_points pr ! 0) bnd a" "isNearest (entry_points pr ! 1) bnd b"
    "spec_fronts lotPoly (shorterWalk bnd a b) tolUnits"
    by (auto simp add: spec_publicFronts_def)
  have "a = iA" "b = iB" using ab assms isNearest_unique by blast+
  then show "spec_fronts lotPoly (shorterWalk bnd iA iB) tolUnits" using ab(3) by simp
next
  assume "spec_fronts lotPoly (shorterWalk bnd iA iB) tolUnits"
  moreover have "iA < length bnd" "iB < length bnd" using assms by (simp_all add: isNearest_def)
  ultimately show "spec_publicFronts lotPoly bnd tolUnits pr"
    using assms by (auto simp add: spec_publicFronts_def)
qed

lemma publicLoop_find:
  assumes "bnd \<noteq> []"
  shows "publicLoop (edgesFromPolygon lotPoly True) bnd tolUnits prs =
         Some (map_option road_id (find (spec_publicFronts lotPoly bnd tolUnits) prs))"
proof (induction prs)
  case Nil
  show ?case by simp
next
  case (Cons pr prs)
  show ?case
  proof (cases "length (entry_points pr) < 2")
    case True
    then have "\<not> spec_publicFronts lotPoly bnd tolUnits pr" by (simp add: spec_publicFronts_def)
    then show ?thesis using True Cons.IH by simp
  next
    case False
    then have two: "2 \<le> length (entry_points pr)" by simp
    obtain iA where iA: "nearestBoundaryIndex (entry_points pr ! 0) bnd = Some iA"
      "isNearest (entry_points pr ! 0) bnd iA"
      using nearestBoundaryIndex_isNearest [OF assms] by blast
    obtain iB where iB: "nearestBoundaryIndex (entry_points pr ! 1) bnd = Some iB"
      "isNearest (entry_points pr ! 1) bnd iB"
      using nearestBoundaryIndex_isNearest [OF assms] by blast
    have lt: "iA < length bnd" "iB < length bnd" using iA(2) iB(2) by (simp_all add: isNearest_def)
    have q: "spec_publicFronts lotPoly bnd tolUnits pr
               \<longleftrightarrow> spec_fronts lotPoly (shorterWalk bnd iA iB) tolUnits"
      using spec_publicFronts_nearest [OF two iA(2) iB(2)] .
    show ?thesis
    proof (cases "iA = iB")
      case True
      then have "\<not> spec_publicFronts lotPoly bnd tolUnits pr"
        using q by (simp add: shorterWalk_def)
      then show ?thesis using False iA(1) iB(1) True Cons.IH by simp
    next
      case ne: False
      show ?thesis
        using False iA(1) iB(1) ne Cons.IH q lt
        by (simp add: pathSegsBetweenIndices_ringWalk edgesTouch_spec_fronts shorterWalk_def Let_def)
    qed
  qed
qed

lemma frontRoad_public_find:
  assumes "3 \<le> length lotPoly"
    and "boundaryClosed c" and "3 \<le> length (boundary c)"
    and "\<forall>r \<in> set (internalRoads c).
           \<not> spec_fronts lotPoly (edgesFromPolygon (polygon r) True) tolUnits"
  shows "computeFrontRoadForLot lotPoly c tolUnits =
         Some (map_option road_id
                 (find (spec_publicFronts lotPoly (boundary c) tolUnits) (publicRoads c)))"
proof -
  have "find (\<lambda>r. spec_fronts lotPoly (edgesFromPolygon (polygon r) True) tolUnits) (internalRoads c)
        = None"
    using assms(4) by (simp add: find_None_iff)
  then have "internalLoop (edgesFromPolygon lotPoly True) tolUnits (internalRoads c) = None"
    by (simp add: internalLoop_find)
  moreover have "boundary c \<noteq> []" using assms(3) by auto
  ultimately show ?thesis
    using assms(1-3) by (simp add: computeFrontRoadForLot_def publicLoop_find)
qed

text \<open>
  Claim C3, as amended.  For a lot polygon with at least three vertices, a closed boundary
  with at least three vertices and no internal road that fronts the lot, the resolver goes
  through the public roads in list order and returns the id of the first one that fronts the
  lot: a road with at least two entry points such that some lot edge intersects, touches or
  lies within the tolerance of some segment of the shorter of the two boundary walks between
  the vertices nearest to its first two entry points.  It returns \<^verbatim>\<open>null\<close> when there is
  no such road; in particular the resolver always returns.
\<close>

theorem computeFrontRoadForLot_public_first:
  assumes "3 \<le> length lotPoly"
    and "boundaryClosed c" and "3 \<le> length (boundary c)"
    and "\<forall>r \<in> set (internalRoads c).
           \<not> spec_fronts lotPoly (edgesFromPolygon (polygon r) True) tolUnits"
  shows "computeFrontRoadForLot lotPoly c tolUnits =
         Some (map_option road_id
                 (find (spec_publicFronts lotPoly (boundary c) tolUnits) (publicRoads c)))"
  using assms by (rule frontRoad_public_find)

text \<open>
  The scene of the program's second frontage smoke test: a lot across the bottom edge of a
  20 by 10 boundary.  Two public roads have their first two entry points at the ends of that
  edge, the second road in the opposite order.
\<close>

definition bnd2 :: "point list" where
  "bnd2 = [(0, 0), (20, 0), (20, 10), (0, 10)]"

definition lot2 :: "point list" where
  "lot2 = [(2, - 1), (6, - 1), (6, 1), (2, 1)]"

definition roadR3 :: publicRoad where
  "roadR3 = \<lparr>road_id = ''R003'', width = 12, road_to_lot_mapping = [],
     entry_points = [(0, 0), (20, 0)]\<rparr>"

definition roadR4 :: publicRoad where
  "roadR4 = \<lparr>road_id = ''R004'', width = 12, road_to_lot_mapping = [],
     entry_points = [(20, 0), (0, 0)]\<rparr>"

definition ctx2 :: ctx where
  "ctx2 = \<lparr>boundary = bnd2, boundaryClosed = True, publicRoads = [roadR3, roadR4],
     internalRoads = []\<rparr>"

lemma all_less4: "(\<forall>k < (4::nat). P k) \<longleftrightarrow> P 0 \<and> P 1 \<and> P 2 \<and> P 3"
proof -
  have "k < 4 \<longleftrightarrow> k = 0 \<or> k = 1 \<or> k = 2 \<or> k = 3" for k :: nat by auto
  then show ?thesis by auto
qed

lemma sqrt_400: "sqrt 400 = 20"
  using real_sqrt_abs2 [of 20] by simp

lemma sqrt_100: "sqrt 100 = 10"
  using real_sqrt_abs2 [of 10] by simp

lemma isNearest_bnd2_0: "isNearest (0, 0) bnd2 0"
  by (simp add: isNearest_def bnd2_def all_less4 distance_def)

lemma isNearest_bnd2_1: "isNearest (20, 0) bnd2 (Suc 0)"
  by (simp add: isNearest_def bnd2_def all_less4 distance_def)

lemma ringWalk_bnd2_01: "ringWalk bnd2 0 (Suc 0) = [((0, 0), (20, 0))]"
  by (simp add: ringWalk_def ringCount_def bnd2_def)

lemma ringWalk_bnd2_10:
  "ringWalk bnd2 (Suc 0) 0 = [((20, 0), (20, 10)), ((20, 10), (0, 10)), ((0, 10), (0, 0))]"
proof -
  have "ringCount (length bnd2) (Suc 0) 0 = Suc (Suc (Suc 0))"
    by (simp add: ringCount_def bnd2_def)
  then show ?thesis by (simp add: ringWalk_def bnd2_def)
qed

lemma shorterWalk_bnd2_01: "shorterWalk bnd2 0 (Suc 0) = [((0, 0), (20, 0))]"
  by (simp add: shorterWalk_def ringWalk_bnd2_01 ringWalk_bnd2_10 segsLen_def sqrt_400 sqrt_100)

lemma shorterWalk_bnd2_10: "shorterWalk bnd2 (Suc 0) 0 = [((0, 0), (20, 0))]"
  by (simp add: shorterWalk_def ringWalk_bnd2_01 ringWalk_bnd2_10 segsLen_def sqrt_400 sqrt_100)

lemma lot2_fronts_bottom: "spec_fronts lot2 [((0, 0), (20, 0))] 0"
proof -
  have "edgePairNear 0 ((6, - 1), (6, 1)) ((0, 0), (20, 0))"
    by (simp add: edgePairNear_def segmentsIntersectOrTouch_def orient_def Let_def)
  then show ?thesis
    by (simp add: spec_fronts_def lot2_def edgesFromPolygon4)
qed

lemma lot2_fronts_R3: "spec_publicFronts lot2 bnd2 0 roadR3"
proof -
  have "2 \<le> length (entry_points roadR3)" by (simp add: roadR3_def)
  moreover have "isNearest (entry_points roadR3 ! 0) bnd2 0" "isNearest (entry_points roadR3 ! 1) bnd2 (Suc 0)"
    using isNearest_bnd2_0 isNearest_bnd2_1 by (simp_all add: roadR3_def)
  ultimately show ?thesis
    using lot2_fronts_bottom by (simp add: spec_publicFronts_nearest shorterWalk_bnd2_01)
qed

lemma lot2_fronts_R4: "spec_publicFronts lot2 bnd2 0 roadR4"
proof -
  have "2 \<le> length (entry_points roadR4)" by (simp add: roadR4_def)
  moreover have "isNearest (entry_points roadR4 ! 0) bnd2 (Suc 0)" "isNearest (entry_points roadR4 ! 1) bnd2 0"
    using isNearest_bnd2_0 isNearest_bnd2_1 by (simp_all add: roadR4_def)
  ultimately show ?thesis
    using lot2_fronts_bottom by (simp add: spec_publicFronts_nearest shorterWalk_bnd2_10)
qed

lemma computeFrontRoadForLot_ctx2: "computeFrontRoadForLot lot2 ctx2 0 = Some (Some ''R003'')"
proof -
  have "computeFrontRoadForLot lot2 ctx2 0 =
        Some (map_option road_id (find (spec_publicFronts lot2 (boundary ctx2) 0) (publicRoads ctx2)))"
    by (rule frontRoad_public_find) (simp_all add: lot2_def ctx2_def bnd2_def)
  moreover have "find (spec_publicFronts lot2 (boundary ctx2) 0) (publicRoads ctx2) = Some roadR3"
    using lot2_fronts_R3 by (simp add: ctx2_def)
  ultimately show ?thesis by (simp add: roadR3_def)
qed

text \<open>
  Both public roads front the lot, and the resolver returns the id of the first: for the second
  road, \<open>R004\<close>, some lot edge crosses its arc and yet its id is not returned.
\<close>

theorem computeFrontRoadForLot_public_counterexample:
  "3 \<le> length lot2 \<and> boundaryClosed ctx2 \<and> 3 \<le> length (boundary ctx2)
   \<and> internalRoads ctx2 = []
   \<and> publicRoads ctx2 ! 1 = roadR4 \<and> 2 \<le> length (entry_points roadR4)
   \<and> spec_publicFronts lot2 (boundary ctx2) 0 roadR4
   \<and> computeFrontRoadForLot lot2 ctx2 0 \<noteq> Some (Some (road_id roadR4))"
proof -
  have "computeFrontRoadForLot lot2 ctx2 0 \<noteq> Some (Some (road_id roadR4))"
    by (simp add: computeFrontRoadForLot_ctx2 roadR4_def)
  moreover have "spec_publicFronts lot2 (boundary ctx2) 0 roadR4"
    using lot2_fronts_R4 by (simp add: ctx2_def)
  moreover have "3 \<le> length lot2" "3 \<le> length (boundary ctx2)" "boundaryClosed ctx2"
    "internalRoads ctx2 = []" "publicRoads ctx2 ! 1 = roadR4" "2 \<le> length (entry_points roadR4)"
    by (simp_all add: lot2_def ctx2_def bnd2_def roadR4_def)
  ultimately show ?thesis by simp
qed

text \<open>The same scene with one internal road away from the lot.\<close>

definition ctx3 :: ctx where
  "ctx3 = ctx2\<lparr>internalRoads := [\<lparr>road_id = ''R001'', width = 6, road_to_lot_mapping = [],
                                    polygon = [(11, 3), (13, 3), (13, 5), (11, 5)]\<rparr>]\<rparr>"

lemma lot2_not_R001:
  "\<not> spec_fronts lot2 [((11, 3), (13, 3)), ((13, 3), (13, 5)), ((13, 5), (11, 5)), ((11, 5), (11, 3))] 0"
  by (simp add: spec_fronts_def lot2_def edgesFromPolygon4 edgePairNear_def
      segmentsIntersectOrTouch_def orient_def onSegment_def Let_def)

theorem computeFrontRoadForLot_public_first_witness:
  "computeFrontRoadForLot lot2 ctx3 0 = Some (Some ''R003'')"
proof -
  have h: "3 \<le> length lot2" "boundaryClosed ctx3" "3 \<le> length (boundary ctx3)"
    by (simp_all add: lot2_def ctx3_def ctx2_def bnd2_def)
  have i: "\<forall>r \<in> set (internalRoads ctx3). \<not> spec_fronts lot2 (edgesFromPolygon (polygon r) True) 0"
    using lot2_not_R001 by (simp add: ctx3_def edgesFromPolygon4)
  have f: "find (spec_publicFronts lot2 (boundary ctx3) 0) (publicRoads ctx3) = Some roadR3"
    using lot2_fronts_R3 by (simp add: ctx3_def ctx2_def)
  show ?thesis
    using computeFrontRoadForLot_public_first [OF h i] f by (simp add: roadR3_def)
qed

section \<open>Snapping: grid candidate or line candidate\<close>

definition settingsT :: settings where
  "settingsT = \<lparr>landId = ''L001'', mode = ModeLot, current = [], snapTol = 0, lineTol = 8,
     gridSnap = True, gridStep = 1, gridTol = 8, gridStrict = True, gridOrigin = (0, 0),
     unitsPerPx = (1 / 8, 1 / 8)\<rparr>"

definition sceneT :: app where
  "sceneT = \<lparr>boundary = [], boundaryClosed = False, publicRoads = [], internalRoads = [],
     lots = [\<lparr>lot_id = ''L001-01'', lot_polygon = [(0, 0), (0, 10), (- 10, 10), (- 10, 0)],
              front_road = None\<rparr>],
     history = [], future = [], selection = None, activePublicIdx = - 1\<rparr>"

lemma addSegs4: "addSegs [a, b, c, d] True = [(a, b), (b, c), (c, d), (d, a)]"
  by (simp add: addSegs_def upt_rec)

lemma avgUP_settingsT: "avgUP settingsT = 1 / 8"
  by (simp add: avgUP_def settingsT_def)

lemma settingsT_fields:
  "mode settingsT = ModeLot" "current settingsT = []" "snapTol settingsT = 0"
  "lineTol settingsT = 8" "gridSnap settingsT" "gridStep settingsT = 1" "gridTol settingsT = 8"
  "gridStrict settingsT" "gridOrigin settingsT = (0, 0)"
  by (simp_all add: settingsT_def)

lemma segments_sceneT:
  "collectSegments (boundary sceneT) (boundaryClosed sceneT) [] (internalRoads sceneT) (lots sceneT)
   = [((0, 0), (0, 10)), ((0, 10), (- 10, 10)), ((- 10, 10), (- 10, 0)), ((- 10, 0), (0, 0))]"
  by (simp add: collectSegments_def sceneT_def addSegs4) (simp add: addSegs_def)

lemma sqrt_quarter: "sqrt (1 / 4) = 1 / 2"
  using real_sqrt_abs2 [of "1 / 2"] by simp

lemma toFixed_vals:
  "toFixed 2 0 = 0" "toFixed 2 1 = 1" "toFixed 2 3 = 3" "toFixed 2 4 = 4"
  "toFixed 2 (1 / 2) = 1 / 2" "toFixed 2 (17 / 4) = 17 / 4"
  by (simp_all add: toFixed_def)

lemma grid_T: "snapToGrid (1 / 2, 3) 1 (0, 0) 1 True = (1, 3)"
  by (simp add: snapToGrid_def mathRound_def Let_def toFixed_vals)

lemma line_T:
  "snapToNearestSegment (1 / 2, 3)
     [((0, 0), (0, 10)), ((0, 10), (- 10, 10)), ((- 10, 10), (- 10, 0)), ((- 10, 0), (0, 0))] 1
   = Some (0, 3)"
  by (simp add: snapToNearestSegment_def nearestSegStep_def pointSegProjection_def dist2_def
      Let_def sqrt_quarter)


lemma pools_T: "vertexPools settingsT sceneT = [[(0, 0), (0, 10), (- 10, 10), (- 10, 0)]]"
  by (simp add: vertexPools_def settingsT_def sceneT_def)

lemma snapToPools_zero_T:
  "snapToPools (0, 3) [[(0, 0), (0, 10), (- 10, 10), (- 10, 0)]] 0 = (0, 3)"
  by (simp add: snapToPools_def poolStep_def dist2_def)

lemma preview_T: "computePreviewPoint settingsT sceneT (Some (1 / 2, 3)) False = Some (0, 3)"
proof -
  have "gridOrLine (1 / 2, 3) (1, 3)
          [((0, 0), (0, 10)), ((0, 10), (- 10, 10)), ((- 10, 10), (- 10, 0)), ((- 10, 0), (0, 0))] 1
        = (0, 3)"
    by (simp add: gridOrLine_def line_T distance_def toFixed_vals)
  then show ?thesis
    by (simp add: computePreviewPoint_def settingsT_fields avgUP_settingsT grid_T
        segments_sceneT pools_T snapToPools_zero_T)
qed

text \<open>A second scene: a lot above the \<open>x\<close>-axis, one point of a new lot drawn at the origin,
  the Shift key held.\<close>

definition settingsS :: settings where
  "settingsS = settingsT\<lparr>current := [(0, 0)]\<rparr>"

definition sceneS :: app where
  "sceneS = sceneT\<lparr>lots := [\<lparr>lot_id = ''L001-01'',
     lot_polygon = [(0, 1 / 2), (10, 1 / 2), (10, 5), (0, 5)], front_road = None\<rparr>]\<rparr>"

lemma avgUP_settingsS: "avgUP settingsS = 1 / 8"
  by (simp add: avgUP_def settingsS_def settingsT_def)

lemma settingsS_fields:
  "mode settingsS = ModeLot" "current settingsS = [(0, 0)]" "snapTol settingsS = 0"
  "lineTol settingsS = 8" "gridSnap settingsS" "gridStep settingsS = 1" "gridTol settingsS = 8"
  "gridStrict settingsS" "gridOrigin settingsS = (0, 0)"
  by (simp_all add: settingsS_def settingsT_def)

lemma segments_sceneS:
  "collectSegments (boundary sceneS) (boundaryClosed sceneS) [(0, 0)] (internalRoads sceneS)
     (lots sceneS)
   = [((0, 1 / 2), (10, 1 / 2)), ((10, 1 / 2), (10, 5)), ((10, 5), (0, 5)), ((0, 5), (0, 1 / 2))]"
  by (simp add: collectSegments_def sceneS_def sceneT_def addSegs4) (simp add: addSegs_def)

lemma aligned_S: "axisAlign (Some (0, 0)) (17 / 4, 3) = (17 / 4, 0)"
  by (simp add: axisAlign_def)

lemma grid_S: "snapToGrid (17 / 4, 0) 1 (0, 0) 1 True = (4, 0)"
  by (simp add: snapToGrid_def mathRound_def Let_def toFixed_vals)

lemma line_S:
  "snapToNearestSegment (17 / 4, 0)
     [((0, 1 / 2), (10, 1 / 2)), ((10, 1 / 2), (10, 5)), ((10, 5), (0, 5)), ((0, 5), (0, 1 / 2))] 1
   = Some (17 / 4, 1 / 2)"
  by (simp add: snapToNearestSegment_def nearestSegStep_def pointSegProjection_def dist2_def
      Let_def sqrt_quarter)

lemma pools_S: "vertexPools settingsS sceneS = [[(0, 1 / 2), (10, 1 / 2), (10, 5), (0, 5)]]"
  by (simp add: vertexPools_def settingsS_def settingsT_def sceneS_def sceneT_def)

lemma snapToPools_zero_S:
  "snapToPools (4, 0) [[(0, 1 / 2), (10, 1 / 2), (10, 5), (0, 5)]] 0 = (4, 0)"
  by (simp add: snapToPools_def poolStep_def dist2_def)

lemma preview_S: "computePreviewPoint settingsS sceneS (Some (17 / 4, 3)) True = Some (4, 0)"
proof -
  have p: "prevPoint settingsS sceneS = Some (0, 0)"
    by (simp add: prevPoint_def settingsS_fields)
  have "gridOrLine (17 / 4, 0) (4, 0)
          [((0, 1 / 2), (10, 1 / 2)), ((10, 1 / 2), (10, 5)), ((10, 5), (0, 5)), ((0, 5), (0, 1 / 2))] 1
        = (4, 0)"
    by (simp add: gridOrLine_def line_S distance_def)
  then show ?thesis
    by (simp add: computePreviewPoint_def p settingsS_fields avgUP_settingsS aligned_S grid_S
        segments_sceneS pools_S snapToPools_zero_S)
qed

text \<open>
  Two inputs on which the resolver does not do what the claim says.  Without axis lock, the
  grid candidate \<open>(1, 3)\<close> and the line candidate \<open>(0, 3)\<close> are equally far from the pointer
  \<open>(0.5, 3)\<close>, and the resolver returns the line candidate.  With axis lock, the pointer
  \<open>(4.25, 3)\<close> is locked to \<open>(4.25, 0)\<close>; the line candidate \<open>(4.25, 0.5)\<close> is nearer to the
  pointer than the grid candidate \<open>(4, 0)\<close>, and the resolver returns the grid candidate, which
  is the nearer one to the locked position.
\<close>

theorem computePreviewPoint_counterexample:
  "snapToGrid (1 / 2, 3) 1 (0, 0) 1 True = (1, 3)
   \<and> snapToNearestSegment (1 / 2, 3)
        (collectSegments (boundary sceneT) (boundaryClosed sceneT) (current settingsT)
           (internalRoads sceneT) (lots sceneT)) 1 = Some (0, 3)
   \<and> distance (1 / 2, 3) (1, 3) = distance (1 / 2, 3) (0, 3)
   \<and> computePreviewPoint settingsT sceneT (Some (1 / 2, 3)) False = Some (0, 3)
   \<and> snapToGrid (17 / 4, 0) 1 (0, 0) 1 True = (4, 0)
   \<and> snapToNearestSegment (17 / 4, 0)
        (collectSegments (boundary sceneS) (boundaryClosed sceneS) (current settingsS)
           (internalRoads sceneS) (lots sceneS)) 1 = Some (17 / 4, 1 / 2)
   \<and> distance (17 / 4, 3) (17 / 4, 1 / 2) < distance (17 / 4, 3) (4, 0)
   \<and> computePreviewPoint settingsS sceneS (Some (17 / 4, 3)) True = Some (4, 0)"
proof -
  have "distance (1 / 2, 3) (1, 3) = distance (1 / 2, 3) (0, 3)"
    by (simp add: distance_def)
  moreover have "distance (17 / 4, 3) (17 / 4, 1 / 2) < distance (17 / 4, 3) (4, 0)"
    by (simp add: distance_def)
  ultimately show ?thesis
    by (simp add: grid_T grid_S settingsT_fields settingsS_fields segments_sceneT segments_sceneS
        line_T line_S preview_T preview_S)
qed

text \<open>
  Claim C2, as amended.  When grid snapping is on with a positive step and the grid point is
  eligible (strict mode, or within the grid tolerance), and a line candidate exists within the
  line tolerance, the point chosen between the two is the line candidate, rounded to two
  decimals, when its distance to the axis-locked pointer position is at most the distance of
  the grid candidate to that position (so a tie goes to the line candidate), and the grid
  candidate otherwise; the resolver returns the vertex snap of that choice.
\<close>

theorem computePreviewPoint_grid_or_line:
  assumes "gridSnap se" and "0 < gridStep se"
    and "aligned = (if shiftKey \<and> prevPoint se st \<noteq> None \<and> mode se \<noteq> ModeSelect
                    then axisAlign (prevPoint se st) raw0 else raw0)"
    and "g = snapToGrid aligned (gridStep se) (gridOrigin se) 0 True"
    and "gridStrict se \<or> distance aligned g \<le> gridTol se * avgUP se"
    and "snapToNearestSegment aligned
           (collectSegments (boundary st) (boundaryClosed st) (current se) (internalRoads st) (lots st))
           (lineTol se * avgUP se) = Some pj"
  shows "computePreviewPoint se st (Some raw0) shiftKey =
         Some (snapToPools
                 (if distance aligned pj \<le> distance aligned g
                  then (toFixed 2 (fst pj), toFixed 2 (snd pj)) else g)
                 (vertexPools se st) (snapTol se * avgUP se))"
proof -
  have p1: "snapToGrid aligned (gridStep se) (gridOrigin se) (gridTol se * avgUP se) (gridStrict se) = g"
    using assms(2,4,5) by (auto simp add: snapToGrid_def Let_def)
  have ne: "collectSegments (boundary st) (boundaryClosed st) (current se) (internalRoads st) (lots st) \<noteq> []"
    using assms(6) by (auto simp add: snapToNearestSegment_def)
  show ?thesis
    using assms(1) assms(3) [symmetric] p1 ne assms(6)
    by (simp add: computePreviewPoint_def gridOrLine_def Let_def)
qed

theorem computePreviewPoint_grid_or_line_witness:
  "computePreviewPoint settingsT sceneT (Some (1 / 2, 3)) False =
     Some (snapToPools (0, 3) (vertexPools settingsT sceneT) (snapTol settingsT * avgUP settingsT))"
proof -
  have a: "gridSnap settingsT" "0 < gridStep settingsT" "gridStrict settingsT \<or> distance (1 / 2, 3) (1, 3) \<le> gridTol settingsT * avgUP settingsT"
    by (simp_all add: settingsT_fields)
  have b: "(1 / 2, 3) = (if False \<and> prevPoint settingsT sceneT \<noteq> None \<and> mode settingsT \<noteq> ModeSelect
                    then axisAlign (prevPoint settingsT sceneT) (1 / 2, 3) else (1 / 2, 3))"
    by simp
  have c: "(1, 3) = snapToGrid (1 / 2, 3) (gridStep settingsT) (gridOrigin settingsT) 0 True"
    using grid_T by (simp add: settingsT_fields snapToGrid_def)
  have d: "snapToNearestSegment (1 / 2, 3)
           (collectSegments (boundary sceneT) (boundaryClosed sceneT) (current settingsT)
              (internalRoads sceneT) (lots sceneT))
           (lineTol settingsT * avgUP settingsT) = Some (0, 3)"
    using line_T by (simp add: segments_sceneT avgUP_settingsT settingsT_fields)
  show ?thesis
    using computePreviewPoint_grid_or_line [OF a(1) a(2) b c a(3) d]
    by (simp add: distance_def toFixed_vals)
qed

section \<open>Export\<close>

lemma computeFrontRoadForLot_returns: "\<exists>r. computeFrontRoadForLot lotPoly c tolUnits = Some r"
proof (cases "boundary c = []")
  case True
  then show ?thesis by (simp add: computeFrontRoadForLot_def Let_def split: option.splits)
next
  case False
  then show ?thesis
    by (simp add: computeFrontRoadForLot_def Let_def publicLoop_find split: option.splits)
qed

lemma lotInfoOf_returns:
  "\<exists>fr. computeFrontRoadForLot (normalizeCCW (lot_polygon l)) c tolUnits = Some fr
       \<and> lotInfoOf c tolUnits l =
           Some \<lparr>info_id = lot_id l, polygonOpen = normalizeCCW (lot_polygon l),
                 info_area = toFixed 1 (shoelaceArea (normalizeCCW (lot_polygon l))), front = fr\<rparr>"
  using computeFrontRoadForLot_returns [of "normalizeCCW (lot_polygon l)" c tolUnits]
  by (auto simp add: lotInfoOf_def Let_def)

lemma those_map_total:
  "(\<forall>x \<in> set xs. \<exists>y. f x = Some y) \<Longrightarrow> those (map f xs) = Some (map (\<lambda>x. the (f x)) xs)"
  by (induction xs) auto

lemma lotInfos_total:
  "those (map (lotInfoOf c tolUnits) ls) = Some (map (\<lambda>l. the (lotInfoOf c tolUnits l)) ls)"
  by (rule those_map_total) (use lotInfoOf_returns in blast)

lemma lotInfoOf_fields:
  "info_id (the (lotInfoOf c tolUnits l)) = lot_id l"
  "polygonOpen (the (lotInfoOf c tolUnits l)) = normalizeCCW (lot_polygon l)"
  using lotInfoOf_returns [of l c tolUnits] by auto

text \<open>The exported form of one polygon, as \<^verbatim>\<open>exportJSON\<close> computes it in three places.\<close>

definition exportedPolygon :: "point list \<Rightarrow> point list" where
  "exportedPolygon src =
     (let polyOpen = normalizeCCW src in
      if length polyOpen \<ge> 3 then ensureClosedLoop polyOpen else polyOpen)"

lemma exportJSON_returns:
  "\<exists>doc. exportJSON se st = Some doc
     \<and> in_boundary (doc_input doc) = exportedPolygon (boundary st)
     \<and> map polygon (internal_roads (doc_output doc)) = map (\<lambda>r. exportedPolygon (polygon r)) (internalRoads st)
     \<and> map lot_polygon (out_lots (doc_output doc)) = map (\<lambda>l. exportedPolygon (lot_polygon l)) (lots st)
     \<and> map road_id (roads (doc_input doc)) = map road_id (publicRoads st)
     \<and> map road_id (internal_roads (doc_output doc)) = map road_id (internalRoads st)"
  by (simp add: exportJSON_def Let_def lotInfos_total exportedPolygon_def lotInfoOf_fields comp_def)

lemma exportJSON_mapping:
  assumes "exportJSON se st = Some doc"
  shows "\<forall>r \<in> set (roads (doc_input doc)).
           road_to_lot_mapping r =
             map lot_id (filter (\<lambda>l. front_road l = Some (road_id r)) (out_lots (doc_output doc)))"
    and "\<forall>r \<in> set (internal_roads (doc_output doc)).
           road_to_lot_mapping r =
             map lot_id (filter (\<lambda>l. front_road l = Some (road_id r)) (out_lots (doc_output doc)))"
  using assms
  by (auto simp add: exportJSON_def Let_def lotInfos_total lotIdsOf_def filter_map comp_def)

text \<open>
  Claim C6.  The export always produces a document, and in it the \<open>road_to_lot_mapping\<close> of
  every public road of \<open>input.roads\<close> and of every internal road of \<open>output.internal_roads\<close>
  is the list of the \<open>lot_id\<close>s of the exported lots, in their order, whose \<open>front_road\<close> is
  the \<open>road_id\<close> of that road.
\<close>

theorem exportJSON_road_to_lot_mapping:
  "\<exists>doc. exportJSON se st = Some doc
     \<and> (\<forall>r \<in> set (roads (doc_input doc)).
           road_to_lot_mapping r =
             map lot_id (filter (\<lambda>l. front_road l = Some (road_id r)) (out_lots (doc_output doc))))
     \<and> (\<forall>r \<in> set (internal_roads (doc_output doc)).
           road_to_lot_mapping r =
             map lot_id (filter (\<lambda>l. front_road l = Some (road_id r)) (out_lots (doc_output doc))))"
  using exportJSON_returns [of se st] exportJSON_mapping [of se st] by blast


theorem exportJSON_road_to_lot_mapping_witness:
  "\<exists>doc. exportJSON settingsT sceneB = Some doc
     \<and> map road_id (internal_roads (doc_output doc)) = [''R001'']
     \<and> map road_to_lot_mapping (internal_roads (doc_output doc)) =
         [map lot_id (filter (\<lambda>l. front_road l = Some ''R001'') (out_lots (doc_output doc)))]"
proof -
  obtain doc where doc: "exportJSON settingsT sceneB = Some doc"
    and m: "\<forall>r \<in> set (internal_roads (doc_output doc)).
           road_to_lot_mapping r =
             map lot_id (filter (\<lambda>l. front_road l = Some (road_id r)) (out_lots (doc_output doc)))"
    using exportJSON_road_to_lot_mapping [of settingsT sceneB] by blast
  have ids: "map road_id (internal_roads (doc_output doc)) = [''R001'']"
    using exportJSON_returns [of settingsT sceneB] doc by (auto simp add: sceneB_def roadB_def)
  then obtain r where r: "internal_roads (doc_output doc) = [r]" "road_id r = ''R001''"
    by auto
  then have "road_to_lot_mapping r =
             map lot_id (filter (\<lambda>l. front_road l = Some ''R001'') (out_lots (doc_output doc)))"
    using m by auto
  then show ?thesis using doc ids r by simp
qed

section \<open>Sorting keeps the length\<close>

lemma length_insertBy [simp]: "length (insertBy cmp x xs) = Suc (length xs)"
  by (induction xs) simp_all

lemma length_sortBy [simp]: "length (sortBy cmp xs) = length xs"
  by (induction xs) (simp_all add: sortBy_def)

section \<open>Winding and closure of the exported polygons\<close>

definition crossTerm :: "point list \<Rightarrow> nat \<Rightarrow> real" where
  "crossTerm poly i =
     fst (poly ! i) * snd (poly ! ((i + 1) mod length poly))
     - fst (poly ! ((i + 1) mod length poly)) * snd (poly ! i)"

lemma fold_add_upt: "fold (\<lambda>i s. s + f i) [0..<n] a = a + (\<Sum>i<n. f i)"
  by (induction n arbitrary: a) (simp_all add: add.assoc)

lemma signedArea_sum:
  "3 \<le> length poly \<Longrightarrow> signedArea poly = (\<Sum>i<length poly. crossTerm poly i) / 2"
  by (simp add: signedArea_def fold_add_upt crossTerm_def)

text \<open>The sum over the ring, with the closing edge written apart.\<close>

lemma ring_sum_split:
  assumes "length poly = Suc m"
  shows "(\<Sum>i<length poly. crossTerm poly i) =
         (\<Sum>i<m. fst (poly ! i) * snd (poly ! Suc i) - fst (poly ! Suc i) * snd (poly ! i))
         + (fst (poly ! m) * snd (poly ! 0) - fst (poly ! 0) * snd (poly ! m))"
proof -
  have "(\<Sum>i<m. crossTerm poly i) =
        (\<Sum>i<m. fst (poly ! i) * snd (poly ! Suc i) - fst (poly ! Suc i) * snd (poly ! i))"
    by (rule sum.cong) (simp_all add: crossTerm_def assms)
  moreover have "crossTerm poly m = fst (poly ! m) * snd (poly ! 0) - fst (poly ! 0) * snd (poly ! m)"
    by (simp add: crossTerm_def assms)
  ultimately show ?thesis by (simp add: assms)
qed

lemma signedArea_rev:
  assumes "3 \<le> length poly"
  shows "signedArea (rev poly) = - signedArea poly"
proof -
  obtain m where m: "length poly = Suc m" using assms by (cases "length poly") auto
  let ?g = "\<lambda>j. fst (poly ! j) * snd (poly ! Suc j) - fst (poly ! Suc j) * snd (poly ! j)"
  have r: "rev poly ! i = poly ! (m - i)" if "i \<le> m" for i
    using that m by (simp add: rev_nth)
  have "(\<Sum>i<m. fst (rev poly ! i) * snd (rev poly ! Suc i) - fst (rev poly ! Suc i) * snd (rev poly ! i))
        = (\<Sum>i<m. - ?g (m - Suc i))"
  proof (rule sum.cong)
    fix i assume "i \<in> {..<m}"
    then have i: "i < m" by simp
    then have "m - i = Suc (m - Suc i)" by simp
    then show "fst (rev poly ! i) * snd (rev poly ! Suc i) - fst (rev poly ! Suc i) * snd (rev poly ! i)
               = - ?g (m - Suc i)"
      using i by (simp add: r)
  qed simp
  also have "\<dots> = - (\<Sum>i<m. ?g (m - Suc i))" by (rule sum_negf)
  also have "(\<Sum>i<m. ?g (m - Suc i)) = (\<Sum>i<m. ?g i)" by (rule sum.nat_diff_reindex)
  finally have a: "(\<Sum>i<m. fst (rev poly ! i) * snd (rev poly ! Suc i) - fst (rev poly ! Suc i) * snd (rev poly ! i))
        = - (\<Sum>i<m. ?g i)" .
  have b: "fst (rev poly ! m) * snd (rev poly ! 0) - fst (rev poly ! 0) * snd (rev poly ! m)
           = - (fst (poly ! m) * snd (poly ! 0) - fst (poly ! 0) * snd (poly ! m))"
    by (simp add: r)
  have "(\<Sum>i<length (rev poly). crossTerm (rev poly) i) = - (\<Sum>i<length poly. crossTerm poly i)"
    using ring_sum_split [of "rev poly" m] ring_sum_split [of poly m] m a b by simp
  then show ?thesis using assms by (simp add: signedArea_sum)
qed

lemma signedArea_append_first:
  assumes "3 \<le> length poly"
  shows "signedArea (poly @ [poly ! 0]) = signedArea poly"
proof -
  obtain m where m: "length poly = Suc m" using assms by (cases "length poly") auto
  let ?q = "poly @ [poly ! 0]"
  have "(\<Sum>i<Suc m. fst (?q ! i) * snd (?q ! Suc i) - fst (?q ! Suc i) * snd (?q ! i))
        = (\<Sum>i<m. fst (poly ! i) * snd (poly ! Suc i) - fst (poly ! Suc i) * snd (poly ! i))
          + (fst (poly ! m) * snd (poly ! 0) - fst (poly ! 0) * snd (poly ! m))"
  proof -
    have "(\<Sum>i<m. fst (?q ! i) * snd (?q ! Suc i) - fst (?q ! Suc i) * snd (?q ! i))
        = (\<Sum>i<m. fst (poly ! i) * snd (poly ! Suc i) - fst (poly ! Suc i) * snd (poly ! i))"
      by (rule sum.cong) (simp_all add: nth_append m)
    moreover have "?q ! m = poly ! m" "?q ! Suc m = poly ! 0"
      using m by (simp_all add: nth_append)
    ultimately show ?thesis by simp
  qed
  moreover have "?q ! Suc m = poly ! 0" "?q ! 0 = poly ! 0"
    using m by (simp_all add: nth_append)
  ultimately have "(\<Sum>i<length ?q. crossTerm ?q i) = (\<Sum>i<length poly. crossTerm poly i)"
    using ring_sum_split [of ?q "Suc m"] ring_sum_split [of poly m] m by simp
  then show ?thesis using assms by (simp add: signedArea_sum)
qed

lemma normalizeCCW_nonneg: "0 \<le> signedArea (normalizeCCW src)"
proof (cases "length (stripClosingDuplicate src) < 3")
  case True
  then show ?thesis by (simp add: normalizeCCW_def signedArea_def)
next
  case False
  then show ?thesis
    using signedArea_rev [of "sortBy (cmpAngle (fst (polygonCentroid (stripClosingDuplicate src)))
        (snd (polygonCentroid (stripClosingDuplicate src)))) (stripClosingDuplicate src)"]
    by (simp add: normalizeCCW_def Let_def)
qed

lemma ptsEqual_refl [simp]: "ptsEqual a a"
  by (simp add: ptsEqual_def EPS_def)

lemma length_normalizeCCW: "length (normalizeCCW src) = length (stripClosingDuplicate src)"
  by (simp add: normalizeCCW_def Let_def length_sortBy)

text \<open>
  What the export guarantees of a serialized polygon \<open>P\<close> whose source polygon is \<open>src\<close>, with
  \<open>n\<close> the number of vertices of \<open>src\<close>, a duplicate closing point not counted: the signed area
  of \<open>P\<close> is not negative, and \<open>P\<close> has \<open>n + 1\<close> points, the last one being its first point
  again, unless its \<open>n\<close>-th point already agrees with its first point within \<open>EPS\<close> in both
  coordinates, in which case \<open>P\<close> has exactly \<open>n\<close> points.
\<close>

definition windingClosed :: "point list \<Rightarrow> point list \<Rightarrow> bool" where
  "windingClosed src P \<longleftrightarrow>
     0 \<le> signedArea P
     \<and> (let n = length (stripClosingDuplicate src) in
        if ptsEqual (P ! 0) (P ! (n - 1)) then length P = n
        else length P = n + 1 \<and> P ! n = P ! 0)"

lemma exportedPolygon_nonneg:
  assumes "3 \<le> length (exportedPolygon src)"
  shows "0 \<le> signedArea (exportedPolygon src)"
proof -
  let ?o = "normalizeCCW src"
  have len: "3 \<le> length ?o"
    using assms by (simp add: exportedPolygon_def Let_def split: if_splits)
  have e: "exportedPolygon src = ensureClosedLoop ?o"
    using len by (simp add: exportedPolygon_def Let_def)
  show ?thesis
    using len normalizeCCW_nonneg [of src] signedArea_append_first [OF len]
    by (simp add: e ensureClosedLoop_def)
qed

lemma exportedPolygon_windingClosed:
  assumes "3 \<le> length (exportedPolygon src)"
  shows "windingClosed src (exportedPolygon src)"
proof -
  let ?o = "normalizeCCW src"
  let ?n = "length (stripClosingDuplicate src)"
  have len: "3 \<le> length ?o"
    using assms by (simp add: exportedPolygon_def Let_def split: if_splits)
  have n: "length ?o = ?n" by (rule length_normalizeCCW)
  have e: "exportedPolygon src = ensureClosedLoop ?o"
    using len by (simp add: exportedPolygon_def Let_def)
  have area: "0 \<le> signedArea (exportedPolygon src)"
    using assms by (rule exportedPolygon_nonneg)
  show ?thesis
  proof (cases "ptsEqual (?o ! 0) (?o ! (?n - 1))")
    case True
    then have "exportedPolygon src = ?o" using len n by (simp add: e ensureClosedLoop_def)
    then show ?thesis using True area n by (simp add: windingClosed_def Let_def)
  next
    case False
    then have E: "exportedPolygon src = ?o @ [?o ! 0]"
      using len n by (simp add: e ensureClosedLoop_def)
    have "(?o @ [?o ! 0]) ! 0 = ?o ! 0" "(?o @ [?o ! 0]) ! (?n - 1) = ?o ! (?n - 1)"
      "(?o @ [?o ! 0]) ! ?n = ?o ! 0"
      using len n by (simp_all add: nth_append)
    then show ?thesis
      using False area n unfolding windingClosed_def Let_def E by simp
  qed
qed

text \<open>
  Claim C7, as amended.  The export always produces a document, with one internal road polygon
  for each internal road of the scene and one lot polygon for each lot, in their order.  Every
  polygon \<open>P\<close> in it (the boundary, the polygon of each internal road, the polygon of each lot)
  that has at least three vertices has a signed area that is not negative: it is wound
  counter-clockwise, or is degenerate with signed area 0.  And it is closed up to a tolerance of
  \<open>10\<^sup>-\<^sup>9\<close>: with \<open>n\<close> the number of vertices of its source polygon, a duplicate closing
  point not counted, \<open>P\<close> has \<open>n + 1\<close> points and its last point is its first point repeated,
  unless its \<open>n\<close>-th point already agrees with its first point within \<open>10\<^sup>-\<^sup>9\<close> in both
  coordinates, in which case \<open>P\<close> has exactly \<open>n\<close> points and nothing is appended.
\<close>

theorem exportJSON_polygons_ccw_closed:
  "\<exists>doc. exportJSON se st = Some doc
     \<and> (3 \<le> length (in_boundary (doc_input doc)) \<longrightarrow>
          windingClosed (boundary st) (in_boundary (doc_input doc)))
     \<and> length (internal_roads (doc_output doc)) = length (internalRoads st)
     \<and> (\<forall>i < length (internalRoads st).
          3 \<le> length (polygon (internal_roads (doc_output doc) ! i)) \<longrightarrow>
          windingClosed (polygon (internalRoads st ! i)) (polygon (internal_roads (doc_output doc) ! i)))
     \<and> length (out_lots (doc_output doc)) = length (lots st)
     \<and> (\<forall>i < length (lots st).
          3 \<le> length (lot_polygon (out_lots (doc_output doc) ! i)) \<longrightarrow>
          windingClosed (lot_polygon (lots st ! i)) (lot_polygon (out_lots (doc_output doc) ! i)))"
proof -
  obtain doc where doc: "exportJSON se st = Some doc"
    and a: "in_boundary (doc_input doc) = exportedPolygon (boundary st)"
    and b: "map polygon (internal_roads (doc_output doc))
            = map (\<lambda>r. exportedPolygon (polygon r)) (internalRoads st)"
    and c: "map lot_polygon (out_lots (doc_output doc))
            = map (\<lambda>l. exportedPolygon (lot_polygon l)) (lots st)"
    using exportJSON_returns [of se st] by (elim exE conjE)
  have lb: "length (internal_roads (doc_output doc)) = length (internalRoads st)"
    using arg_cong [OF b, of length] by simp
  have lc: "length (out_lots (doc_output doc)) = length (lots st)"
    using arg_cong [OF c, of length] by simp
  have nb: "polygon (internal_roads (doc_output doc) ! i) = exportedPolygon (polygon (internalRoads st ! i))"
    if "i < length (internalRoads st)" for i
    using arg_cong [OF b, of "\<lambda>xs. xs ! i"] that lb by simp
  have nc: "lot_polygon (out_lots (doc_output doc) ! i) = exportedPolygon (lot_polygon (lots st ! i))"
    if "i < length (lots st)" for i
    using arg_cong [OF c, of "\<lambda>xs. xs ! i"] that lc by simp
  have A: "3 \<le> length (in_boundary (doc_input doc)) \<longrightarrow>
          windingClosed (boundary st) (in_boundary (doc_input doc))"
    by (simp only: a) (intro impI exportedPolygon_windingClosed)
  have B: "\<forall>i < length (internalRoads st).
          3 \<le> length (polygon (internal_roads (doc_output doc) ! i)) \<longrightarrow>
          windingClosed (polygon (internalRoads st ! i)) (polygon (internal_roads (doc_output doc) ! i))"
  proof (intro allI impI)
    fix i assume i: "i < length (internalRoads st)"
      and "3 \<le> length (polygon (internal_roads (doc_output doc) ! i))"
    then have "3 \<le> length (exportedPolygon (polygon (internalRoads st ! i)))"
      by (simp only: nb [OF i])
    then have "windingClosed (polygon (internalRoads st ! i)) (exportedPolygon (polygon (internalRoads st ! i)))"
      by (rule exportedPolygon_windingClosed)
    then show "windingClosed (polygon (internalRoads st ! i)) (polygon (internal_roads (doc_output doc) ! i))"
      by (simp only: nb [OF i])
  qed
  have C: "\<forall>i < length (lots st).
          3 \<le> length (lot_polygon (out_lots (doc_output doc) ! i)) \<longrightarrow>
          windingClosed (lot_polygon (lots st ! i)) (lot_polygon (out_lots (doc_output doc) ! i))"
  proof (intro allI impI)
    fix i assume i: "i < length (lots st)"
      and "3 \<le> length (lot_polygon (out_lots (doc_output doc) ! i))"
    then have "3 \<le> length (exportedPolygon (lot_polygon (lots st ! i)))"
      by (simp only: nc [OF i])
    then have "windingClosed (lot_polygon (lots st ! i)) (exportedPolygon (lot_polygon (lots st ! i)))"
      by (rule exportedPolygon_windingClosed)
    then show "windingClosed (lot_polygon (lots st ! i)) (lot_polygon (out_lots (doc_output doc) ! i))"
      by (simp only: nc [OF i])
  qed
  show ?thesis
    by (rule exI [of _ doc]) (intro conjI doc A lb B lc C)
qed

lemma upt3: "[0..<3] = [0, 1, 2]"
  by (simp add: upt_rec)

lemma signedArea_zero_y:
  "signedArea [(a, 0), (b, 0), (c, 0)] = 0" "signedArea [(a, 0), (b, 0), (c, 0), (d, 0)] = 0"
  by (simp_all add: signedArea_def upt3 upt4)

lemma centroid_collinear: "polygonCentroid [(0, 0), (1, 0), (2, 0)] = (1, 0)"
  by (simp add: polygonCentroid_def upt3 Let_def)

lemma cmpAngle_collinear:
  "cmpAngle 1 0 (1, 0) (2, 0) \<le> 0"
  "\<not> cmpAngle 1 0 (0, 0) (1, 0) \<le> 0"
  "\<not> cmpAngle 1 0 (0, 0) (2, 0) \<le> 0"
  using pi_gt_zero by (simp_all add: cmpAngle_def atan2_def Let_def not_le)

lemma normalizeCCW_collinear: "normalizeCCW [(0, 0), (1, 0), (2, 0)] = [(0, 0), (2, 0), (1, 0)]"
proof -
  have s: "stripClosingDuplicate [(0, 0), (1, 0), (2, 0)] = [(0, 0), (1, 0), (2, 0)]"
    by (simp add: stripClosingDuplicate_def ptsEqual_def EPS_def)
  have "sortBy (cmpAngle 1 0) [(0, 0), (1, 0), (2, 0)] = [(1, 0), (2, 0), (0, 0)]"
    by (simp add: sortBy_def cmpAngle_collinear)
  then show ?thesis
    by (simp add: normalizeCCW_def s centroid_collinear Let_def signedArea_zero_y)
qed

lemma exportedPolygon_collinear:
  "exportedPolygon [(0, 0), (1, 0), (2, 0)] = [(0, 0), (2, 0), (1, 0), (0, 0)]"
  by (simp add: exportedPolygon_def normalizeCCW_collinear ensureClosedLoop_def ptsEqual_def EPS_def)


text \<open>A lot whose last edge is shorter than the tolerance of \<^verbatim>\<open>ptsEqual\<close>.\<close>

definition tinyQuad :: "point list" where
  "tinyQuad = [(1, - 1), (1, 1), (- 1, 1 / 10000000000), (- 1, - (1 / 10000000000))]"

lemma atan2_Q3: "x < 0 \<Longrightarrow> y < 0 \<Longrightarrow> atan2 y x < - (pi / 2)"
proof -
  assume "x < 0" "y < 0"
  then have "atan2 y x = arctan (y / x) - pi" by (simp add: atan2_def)
  then show ?thesis using arctan_ubound [of "y / x"] by simp
qed

lemma atan2_Q4: "0 < x \<Longrightarrow> y < 0 \<Longrightarrow> - (pi / 2) < atan2 y x \<and> atan2 y x < 0"
proof -
  assume a: "0 < x" "y < 0"
  then have "atan2 y x = arctan (y / x)" by (simp add: atan2_def)
  moreover have "y / x < 0" using a by (simp add: divide_neg_pos)
  ultimately show ?thesis using arctan_lbound [of "y / x"] by (simp add: arctan_less_zero_iff)
qed

lemma atan2_Q1: "0 < x \<Longrightarrow> 0 < y \<Longrightarrow> 0 < atan2 y x \<and> atan2 y x < pi / 2"
proof -
  assume a: "0 < x" "0 < y"
  then have "atan2 y x = arctan (y / x)" by (simp add: atan2_def)
  moreover have "0 < y / x" using a by simp
  ultimately show ?thesis using arctan_ubound [of "y / x"] by (simp add: zero_less_arctan_iff)
qed

lemma atan2_Q2: "x < 0 \<Longrightarrow> 0 \<le> y \<Longrightarrow> pi / 2 < atan2 y x"
proof -
  assume "x < 0" "0 \<le> y"
  then have "atan2 y x = arctan (y / x) + pi" by (simp add: atan2_def)
  then show ?thesis using arctan_lbound [of "y / x"] by simp
qed

lemma cmpAngle_less:
  "atan2 (snd a - cy) (fst a - cx) < atan2 (snd b - cy) (fst b - cx) \<Longrightarrow> cmpAngle cx cy a b \<le> 0"
  by (simp add: cmpAngle_def Let_def)

lemma cmpAngle_greater:
  "atan2 (snd b - cy) (fst b - cx) < atan2 (snd a - cy) (fst a - cx) \<Longrightarrow> \<not> cmpAngle cx cy a b \<le> 0"
  by (simp add: cmpAngle_def Let_def)

lemma centroid_tinyQuad: "polygonCentroid tinyQuad = (3333333333 / 10000000001, 0)"
  by (simp add: polygonCentroid_def tinyQuad_def upt4 Let_def)


lemma angles_tinyQuad:
  fixes cx :: real
  assumes "cx = 3333333333 / 10000000001"
  shows "atan2 (- (1 / 10000000000) - 0) (- 1 - cx) < - (pi / 2)"
    and "- (pi / 2) < atan2 (- 1 - 0) (1 - cx) \<and> atan2 (- 1 - 0) (1 - cx) < 0"
    and "0 < atan2 (1 - 0) (1 - cx) \<and> atan2 (1 - 0) (1 - cx) < pi / 2"
    and "pi / 2 < atan2 (1 / 10000000000 - 0) (- 1 - cx)"
proof -
  show "atan2 (- (1 / 10000000000) - 0) (- 1 - cx) < - (pi / 2)"
    by (rule atan2_Q3) (simp_all add: assms)
  show "- (pi / 2) < atan2 (- 1 - 0) (1 - cx) \<and> atan2 (- 1 - 0) (1 - cx) < 0"
    by (rule atan2_Q4) (simp_all add: assms)
  show "0 < atan2 (1 - 0) (1 - cx) \<and> atan2 (1 - 0) (1 - cx) < pi / 2"
    by (rule atan2_Q1) (simp_all add: assms)
  show "pi / 2 < atan2 (1 / 10000000000 - 0) (- 1 - cx)"
    by (rule atan2_Q2) (simp_all add: assms)
qed

lemma sort_tinyQuad:
  "sortBy (cmpAngle (3333333333 / 10000000001) 0) tinyQuad
   = [(- 1, - (1 / 10000000000)), (1, - 1), (1, 1), (- 1, 1 / 10000000000)]"
proof -
  let ?cx = "3333333333 / 10000000001 :: real"
  let ?A = "(- 1, - (1 / 10000000000)) :: point" and ?B = "(1, - 1) :: point"
  let ?C = "(1, 1) :: point" and ?D = "(- 1, 1 / 10000000000) :: point"
  note ang = angles_tinyQuad [OF refl]
  have DA: "\<not> cmpAngle ?cx 0 ?D ?A \<le> 0"
    by (rule cmpAngle_greater) (use ang pi_gt_zero in simp)
  have CA: "\<not> cmpAngle ?cx 0 ?C ?A \<le> 0"
    by (rule cmpAngle_greater) (use ang pi_gt_zero in simp)
  have CD: "cmpAngle ?cx 0 ?C ?D \<le> 0"
    by (rule cmpAngle_less) (use ang pi_gt_zero in simp)
  have BA: "\<not> cmpAngle ?cx 0 ?B ?A \<le> 0"
    by (rule cmpAngle_greater) (use ang pi_gt_zero in simp)
  have BC: "cmpAngle ?cx 0 ?B ?C \<le> 0"
    by (rule cmpAngle_less) (use ang pi_gt_zero in simp)
  show ?thesis
    by (simp add: sortBy_def tinyQuad_def DA CA CD BA BC)
qed

lemma exportedPolygon_tinyQuad:
  "exportedPolygon tinyQuad = [(- 1, - (1 / 10000000000)), (1, - 1), (1, 1), (- 1, 1 / 10000000000)]"
proof -
  have s: "stripClosingDuplicate tinyQuad = tinyQuad"
    by (simp add: stripClosingDuplicate_def tinyQuad_def ptsEqual_def EPS_def)
  have l: "length tinyQuad = 4" by (simp add: tinyQuad_def)
  have a: "0 < signedArea [(- 1, - (1 / 10000000000)), (1, - 1), (1, 1), (- 1, 1 / 10000000000)]"
    by (simp add: signedArea_def upt4)
  have n: "normalizeCCW tinyQuad = [(- 1, - (1 / 10000000000)), (1, - 1), (1, 1), (- 1, 1 / 10000000000)]"
    using a by (simp add: normalizeCCW_def s l centroid_tinyQuad sort_tinyQuad Let_def)
  show ?thesis
    by (simp add: exportedPolygon_def n ensureClosedLoop_def ptsEqual_def EPS_def)
qed

text \<open>
  A square, which is exported with its first vertex repeated, and a scene with that square as
  boundary and the lot with the short last edge, which is exported with its four vertices
  only.
\<close>

definition square9 :: "point list" where
  "square9 = [(0, 0), (9, 0), (9, 9), (0, 9)]"

lemma centroid_square9: "polygonCentroid square9 = (9 / 2, 9 / 2)"
  by (simp add: polygonCentroid_def square9_def upt4 Let_def)

lemma sort_square9: "sortBy (cmpAngle (9 / 2) (9 / 2)) square9 = square9"
proof -
  let ?A = "(0, 0) :: point" and ?B = "(9, 0) :: point"
  let ?C = "(9, 9) :: point" and ?D = "(0, 9) :: point"
  have a: "atan2 (0 - 9 / 2) (0 - 9 / 2) < - (pi / 2)" by (rule atan2_Q3) simp_all
  have b: "- (pi / 2) < atan2 (0 - 9 / 2) (9 - 9 / 2) \<and> atan2 (0 - 9 / 2) (9 - 9 / 2) < 0"
    by (rule atan2_Q4) simp_all
  have c: "0 < atan2 (9 - 9 / 2) (9 - 9 / 2) \<and> atan2 (9 - 9 / 2) (9 - 9 / 2) < pi / 2"
    by (rule atan2_Q1) simp_all
  have d: "pi / 2 < atan2 (9 - 9 / 2) (0 - 9 / 2)" by (rule atan2_Q2) simp_all
  have AB: "cmpAngle (9 / 2) (9 / 2) ?A ?B \<le> 0"
    by (rule cmpAngle_less) (use a b in simp)
  have BC: "cmpAngle (9 / 2) (9 / 2) ?B ?C \<le> 0"
    by (rule cmpAngle_less) (use b c in simp)
  have CD: "cmpAngle (9 / 2) (9 / 2) ?C ?D \<le> 0"
    by (rule cmpAngle_less) (use c d pi_gt_zero in simp)
  show ?thesis
    by (simp add: sortBy_def square9_def AB BC CD)
qed

lemma exportedPolygon_square9:
  "exportedPolygon square9 = [(0, 0), (9, 0), (9, 9), (0, 9), (0, 0)]"
proof -
  have s: "stripClosingDuplicate square9 = square9"
    by (simp add: stripClosingDuplicate_def square9_def ptsEqual_def EPS_def)
  have l: "length square9 = 4" by (simp add: square9_def)
  have a: "0 < signedArea square9"
    by (simp add: signedArea_def square9_def upt4)
  have n: "normalizeCCW square9 = square9"
    using a by (simp add: normalizeCCW_def s l centroid_square9 sort_square9 Let_def)
  show ?thesis
    by (simp add: exportedPolygon_def n ensureClosedLoop_def l) (simp add: square9_def ptsEqual_def EPS_def)
qed

definition sceneR :: app where
  "sceneR = \<lparr>boundary = square9, boundaryClosed = True, publicRoads = [], internalRoads = [],
     lots = [\<lparr>lot_id = ''L001-01'', lot_polygon = tinyQuad, front_road = None\<rparr>],
     history = [], future = [], selection = None, activePublicIdx = - 1\<rparr>"

theorem exportJSON_polygons_ccw_closed_witness:
  "length (in_boundary (doc_input (the (exportJSON settingsT sceneR)))) = 5
   \<and> in_boundary (doc_input (the (exportJSON settingsT sceneR))) ! 4
       = in_boundary (doc_input (the (exportJSON settingsT sceneR))) ! 0
   \<and> 0 \<le> signedArea (in_boundary (doc_input (the (exportJSON settingsT sceneR))))
   \<and> length (lot_polygon (out_lots (doc_output (the (exportJSON settingsT sceneR))) ! 0)) = 4
   \<and> 0 \<le> signedArea (lot_polygon (out_lots (doc_output (the (exportJSON settingsT sceneR))) ! 0))"
proof -
  obtain doc where doc: "exportJSON settingsT sceneR = Some doc"
    and bnd: "3 \<le> length (in_boundary (doc_input doc)) \<longrightarrow>
          windingClosed (boundary sceneR) (in_boundary (doc_input doc))"
    and lts: "\<forall>i < length (lots sceneR).
          3 \<le> length (lot_polygon (out_lots (doc_output doc) ! i)) \<longrightarrow>
          windingClosed (lot_polygon (lots sceneR ! i)) (lot_polygon (out_lots (doc_output doc) ! i))"
    using exportJSON_polygons_ccw_closed [of settingsT sceneR] by (elim exE conjE)
  let ?B = "in_boundary (doc_input doc)"
  let ?L = "lot_polygon (out_lots (doc_output doc) ! 0)"
  have B: "?B = [(0, 0), (9, 0), (9, 9), (0, 9), (0, 0)]"
    using exportJSON_returns [of settingsT sceneR] doc
    by (auto simp add: sceneR_def exportedPolygon_square9)
  have "map lot_polygon (out_lots (doc_output doc)) = [exportedPolygon tinyQuad]"
    using exportJSON_returns [of settingsT sceneR] doc by (auto simp add: sceneR_def)
  then have L: "?L = [(- 1, - (1 / 10000000000)), (1, - 1), (1, 1), (- 1, 1 / 10000000000)]"
    by (auto simp add: exportedPolygon_tinyQuad)
  have sB: "length (stripClosingDuplicate (boundary sceneR)) = 4"
    by (simp add: sceneR_def square9_def stripClosingDuplicate_def ptsEqual_def EPS_def)
  have sL: "length (stripClosingDuplicate (lot_polygon (lots sceneR ! 0))) = 4"
    by (simp add: sceneR_def tinyQuad_def stripClosingDuplicate_def ptsEqual_def EPS_def)
  have "3 \<le> length ?B" by (simp add: B)
  with bnd have "windingClosed (boundary sceneR) ?B" by (rule mp)
  then have "0 \<le> signedArea ?B
      \<and> (if ptsEqual (?B ! 0) (?B ! 3) then length ?B = 4 else length ?B = 5 \<and> ?B ! 4 = ?B ! 0)"
    by (simp add: windingClosed_def sB)
  moreover have "\<not> ptsEqual (?B ! 0) (?B ! 3)" by (simp add: B ptsEqual_def EPS_def)
  ultimately have rB: "length ?B = 5 \<and> ?B ! 4 = ?B ! 0 \<and> 0 \<le> signedArea ?B" by simp
  have "0 < length (lots sceneR) \<longrightarrow> 3 \<le> length ?L \<longrightarrow> windingClosed (lot_polygon (lots sceneR ! 0)) ?L"
    using lts by (rule spec)
  moreover have "0 < length (lots sceneR)" by (simp add: sceneR_def)
  moreover have "3 \<le> length ?L" by (simp add: L)
  ultimately have "windingClosed (lot_polygon (lots sceneR ! 0)) ?L" by simp
  then have "0 \<le> signedArea ?L
      \<and> (if ptsEqual (?L ! 0) (?L ! 3) then length ?L = 4 else length ?L = 5 \<and> ?L ! 4 = ?L ! 0)"
    by (simp add: windingClosed_def sL)
  moreover have "ptsEqual (?L ! 0) (?L ! 3)" by (simp add: L ptsEqual_def EPS_def)
  ultimately have rL: "length ?L = 4 \<and> 0 \<le> signedArea ?L" by simp
  show ?thesis using rB rL by (simp only: doc option.sel)
qed

text \<open>A scene with two lots: three collinear vertices, and the lot with the short last edge.\<close>

definition sceneK :: app where
  "sceneK = \<lparr>boundary = [], boundaryClosed = False, publicRoads = [], internalRoads = [],
     lots = [\<lparr>lot_id = ''L001-01'', lot_polygon = [(0, 0), (1, 0), (2, 0)], front_road = None\<rparr>,
             \<lparr>lot_id = ''L001-02'', lot_polygon = tinyQuad, front_road = None\<rparr>],
     history = [], future = [], selection = None, activePublicIdx = - 1\<rparr>"

text \<open>
  The export of that scene.  The first lot polygon comes out with four vertices and signed
  area 0, which is not positive.  The second comes out with four vertices, its first vertex is
  not repeated at the end and differs from its last vertex.
\<close>

theorem exportJSON_polygons_counterexample:
  "map_option (map lot_polygon \<circ> out_lots \<circ> doc_output) (exportJSON settingsT sceneK)
     = Some [[(0, 0), (2, 0), (1, 0), (0, 0)],
             [(- 1, - (1 / 10000000000)), (1, - 1), (1, 1), (- 1, 1 / 10000000000)]]
   \<and> \<not> 0 < signedArea [(0, 0), (2, 0), (1, 0), (0, 0)]
   \<and> [(- 1, - (1 / 10000000000)), (1, - 1), (1, 1), (- 1, 1 / 10000000000)] ! 0
       \<noteq> [(- 1, - (1 / 10000000000)), (1, - 1), (1, 1), (- 1, 1 / 10000000000 :: real)] ! 3"
proof -
  obtain doc where doc: "exportJSON settingsT sceneK = Some doc"
    and l: "map lot_polygon (out_lots (doc_output doc))
            = map (\<lambda>l. exportedPolygon (lot_polygon l)) (lots sceneK)"
    using exportJSON_returns [of settingsT sceneK] by (elim exE conjE)
  have "map lot_polygon (out_lots (doc_output doc))
        = [[(0, 0), (2, 0), (1, 0), (0, 0)],
           [(- 1, - (1 / 10000000000)), (1, - 1), (1, 1), (- 1, 1 / 10000000000)]]"
    unfolding l by (simp add: sceneK_def exportedPolygon_collinear exportedPolygon_tinyQuad)
  then have "map_option (map lot_polygon \<circ> out_lots \<circ> doc_output) (exportJSON settingsT sceneK)
     = Some [[(0, 0), (2, 0), (1, 0), (0, 0)],
             [(- 1, - (1 / 10000000000)), (1, - 1), (1, 1), (- 1, 1 / 10000000000)]]"
    by (simp add: doc)
  moreover have "\<not> 0 < signedArea [(0, 0), (2, 0), (1, 0), (0 :: real, 0 :: real)]"
    by (simp add: signedArea_zero_y)
  moreover have "[(- 1, - (1 / 10000000000)), (1, - 1), (1, 1), (- 1, 1 / 10000000000)] ! 0
       \<noteq> [(- 1, - (1 / 10000000000)), (1, - 1), (1, 1), (- 1, 1 / 10000000000 :: real)] ! 3"
    by simp
  ultimately show ?thesis by (intro conjI)
qed

section \<open>Convex hull: the monotone chain\<close>

text \<open>The order in which \<^verbatim>\<open>convexHull\<close> sorts: by \<open>x\<close>, then by \<open>y\<close>.\<close>

definition lexLe :: "point \<Rightarrow> point \<Rightarrow> bool" where
  "lexLe a b \<longleftrightarrow> fst a < fst b \<or> (fst a = fst b \<and> snd a \<le> snd b)"

lemma cross_identity:
  fixes u1 u2 v1 v2 w1 w2 :: real
  shows "(u1 * w2 - u2 * w1) * v1 = (u1 * v2 - u2 * v1) * w1 + (v1 * w2 - v2 * w1) * u1"
  by (simp add: algebra_simps)

text \<open>Four facts on the orientation of lexicographically ordered points.\<close>

lemma turn_pop_beyond:
  assumes "lexLe s t" and "lexLe t q" and "lexLe q c"
    and "cross3 s t c \<le> 0" and "0 \<le> cross3 t c q"
  shows "0 \<le> cross3 s c q"
proof -
  define x1 x2 y1 y2 z1 z2 where d: "x1 = fst s - fst c" "x2 = snd s - snd c"
    "y1 = fst t - fst c" "y2 = snd t - snd c" "z1 = fst q - fst c" "z2 = snd q - snd c"
  have xy: "x1 * y2 - x2 * y1 \<le> 0"
    using assms(4) by (simp add: cross3_def d algebra_simps)
  have yz: "y1 * z2 - y2 * z1 \<le> 0"
    using assms(5) by (simp add: cross3_def d algebra_simps)
  have goal: "cross3 s c q = - (x1 * z2 - x2 * z1)"
    by (simp add: cross3_def d algebra_simps)
  have ord: "x1 \<le> y1" "y1 \<le> z1" "z1 \<le> 0"
    using assms(1-3) by (auto simp add: lexLe_def d)
  have id: "(x1 * z2 - x2 * z1) * y1 = (x1 * y2 - x2 * y1) * z1 + (y1 * z2 - y2 * z1) * x1"
    by (rule cross_identity)
  have "0 \<le> (x1 * y2 - x2 * y1) * z1" using xy ord by (simp add: mult_nonpos_nonpos)
  moreover have "0 \<le> (y1 * z2 - y2 * z1) * x1" using yz ord by (simp add: mult_nonpos_nonpos)
  ultimately have p: "0 \<le> (x1 * z2 - x2 * z1) * y1" using id by simp
  show ?thesis
  proof (cases "y1 < 0")
    case True
    then have "x1 * z2 - x2 * z1 \<le> 0" using p by (simp add: zero_le_mult_iff)
    then show ?thesis using goal by simp
  next
    case False
    then have y1: "y1 = 0" and z1: "z1 = 0" using ord by simp_all
    have yz2: "y2 \<le> z2" "z2 \<le> 0"
      using assms(2,3) y1 z1 by (auto simp add: lexLe_def d)
    have "x1 * y2 \<le> 0" using xy y1 by simp
    moreover have "0 \<le> x1 * y2" using ord yz2 by (simp add: mult_nonpos_nonpos)
    ultimately have "x1 * y2 = 0" by simp
    then have "x1 = 0 \<or> z2 = 0" using yz2 by auto
    then have "x1 * z2 - x2 * z1 = 0" using z1 by auto
    then show ?thesis using goal by simp
  qed
qed

lemma turn_pop_between:
  assumes "lexLe s q" and "lexLe q t" and "lexLe t c"
    and "0 \<le> cross3 s t q" and "cross3 s t c \<le> 0"
  shows "0 \<le> cross3 s c q"
proof -
  define y1 y2 z1 z2 x1 x2 where d: "y1 = fst t - fst s" "y2 = snd t - snd s"
    "z1 = fst q - fst s" "z2 = snd q - snd s" "x1 = fst c - fst s" "x2 = snd c - snd s"
  have yz: "0 \<le> y1 * z2 - y2 * z1"
    using assms(4) by (simp add: cross3_def d algebra_simps)
  have yx: "y1 * x2 - y2 * x1 \<le> 0"
    using assms(5) by (simp add: cross3_def d algebra_simps)
  have goal: "cross3 s c q = x1 * z2 - x2 * z1"
    by (simp add: cross3_def d algebra_simps)
  have ord: "0 \<le> z1" "z1 \<le> y1" "y1 \<le> x1"
    using assms(1-3) by (auto simp add: lexLe_def d)
  have id: "(z1 * x2 - z2 * x1) * y1 = (z1 * y2 - z2 * y1) * x1 + (y1 * x2 - y2 * x1) * z1"
    by (rule cross_identity)
  have "z1 * y2 - z2 * y1 \<le> 0" using yz by (simp add: algebra_simps)
  moreover have "0 \<le> x1" using ord by simp
  ultimately have "(z1 * y2 - z2 * y1) * x1 \<le> 0" by (rule mult_nonpos_nonneg)
  moreover have "(y1 * x2 - y2 * x1) * z1 \<le> 0" using yx ord(1) by (rule mult_nonpos_nonneg)
  ultimately have p: "(z1 * x2 - z2 * x1) * y1 \<le> 0" using id by simp
  show ?thesis
  proof (cases "0 < y1")
    case True
    then have "z1 * x2 - z2 * x1 \<le> 0" using p by (simp add: mult_le_0_iff)
    then show ?thesis using goal by (simp add: algebra_simps)
  next
    case False
    then have y1: "y1 = 0" and z1: "z1 = 0" using ord by simp_all
    have "0 \<le> z2" using assms(1) z1 by (auto simp add: lexLe_def d)
    moreover have "0 \<le> x1" using ord by simp
    ultimately have "0 \<le> x1 * z2" by simp
    then show ?thesis using goal z1 by simp
  qed
qed

lemma turn_chain:
  assumes "lexLe x y" and "lexLe y z" and "lexLe z c"
    and "0 < cross3 x y z" and "0 < cross3 y z c"
  shows "0 < cross3 x y c"
proof -
  define u1 u2 v1 v2 w1 w2 where d: "u1 = fst y - fst x" "u2 = snd y - snd x"
    "v1 = fst z - fst y" "v2 = snd z - snd y" "w1 = fst c - fst z" "w2 = snd c - snd z"
  have uv: "0 < u1 * v2 - u2 * v1"
    using assms(4) by (simp add: cross3_def d algebra_simps)
  have vw: "0 < v1 * w2 - v2 * w1"
    using assms(5) by (simp add: cross3_def d algebra_simps)
  have goal: "cross3 x y c = (u1 * v2 - u2 * v1) + (u1 * w2 - u2 * w1)"
    by (simp add: cross3_def d algebra_simps)
  have ord: "0 \<le> u1" "0 \<le> v1" "0 \<le> w1"
    using assms(1-3) by (auto simp add: lexLe_def d)
  have v2: "v1 = 0 \<Longrightarrow> 0 \<le> v2" using assms(2) by (auto simp add: lexLe_def d)
  have "0 < v1"
  proof (rule ccontr)
    assume "\<not> 0 < v1"
    then have v1: "v1 = 0" using ord by simp
    then have "0 \<le> v2 * w1" using v2 ord by simp
    then show False using vw v1 by simp
  qed
  have id: "(u1 * w2 - u2 * w1) * v1 = (u1 * v2 - u2 * v1) * w1 + (v1 * w2 - v2 * w1) * u1"
    by (rule cross_identity)
  have "0 \<le> (u1 * v2 - u2 * v1) * w1" using uv ord by simp
  moreover have "0 \<le> (v1 * w2 - v2 * w1) * u1" using vw ord by simp
  ultimately have "0 \<le> (u1 * w2 - u2 * w1) * v1" using id by simp
  then have "0 \<le> u1 * w2 - u2 * w1" using \<open>0 < v1\<close> by (simp add: zero_le_mult_iff)
  then show ?thesis using goal uv by simp
qed

lemma turn_new_edge:
  assumes "lexLe a b" and "lexLe q b" and "lexLe b c"
    and "0 < cross3 a b c" and "0 \<le> cross3 a b q"
  shows "0 \<le> cross3 b c q"
proof -
  define u1 u2 v1 v2 s1 s2 where d: "u1 = fst b - fst a" "u2 = snd b - snd a"
    "v1 = fst c - fst b" "v2 = snd c - snd b" "s1 = fst b - fst q" "s2 = snd b - snd q"
  have uv: "0 < u1 * v2 - u2 * v1"
    using assms(4) by (simp add: cross3_def d algebra_simps)
  have us: "u1 * s2 - u2 * s1 \<le> 0"
    using assms(5) by (simp add: cross3_def d algebra_simps)
  have goal: "cross3 b c q = - (v1 * s2 - v2 * s1)"
    by (simp add: cross3_def d algebra_simps)
  have ord: "0 \<le> u1" "0 \<le> v1" "0 \<le> s1"
    using assms(1-3) by (auto simp add: lexLe_def d)
  have u2: "u1 = 0 \<Longrightarrow> 0 \<le> u2" using assms(1) by (auto simp add: lexLe_def d)
  have "0 < u1"
  proof (rule ccontr)
    assume "\<not> 0 < u1"
    then have u1: "u1 = 0" using ord by simp
    then have "0 \<le> u2 * v1" using u2 ord by simp
    then show False using uv u1 by simp
  qed
  have id: "(u1 * s2 - u2 * s1) * v1 = (u1 * v2 - u2 * v1) * s1 + (v1 * s2 - v2 * s1) * u1"
    by (rule cross_identity)
  have "(u1 * s2 - u2 * s1) * v1 \<le> 0" using us ord by (simp add: mult_nonpos_nonneg)
  moreover have "0 \<le> (u1 * v2 - u2 * v1) * s1" using uv ord by simp
  ultimately have "(v1 * s2 - v2 * s1) * u1 \<le> 0" using id by simp
  then have "v1 * s2 - v2 * s1 \<le> 0" using \<open>0 < u1\<close> by (simp add: mult_le_0_iff)
  then show ?thesis using goal by simp
qed


lemma lexLe_refl [simp]: "lexLe a a"
  by (simp add: lexLe_def)

lemma lexLe_total: "lexLe a b \<or> lexLe b a"
  by (auto simp add: lexLe_def)

lemma lexLe_trans: "lexLe a b \<Longrightarrow> lexLe b c \<Longrightarrow> lexLe a c"
  by (auto simp add: lexLe_def)

lemma lexLe_antisym: "lexLe a b \<Longrightarrow> lexLe b a \<Longrightarrow> a = b"
  by (auto simp add: lexLe_def prod_eq_iff)

lemma cross3_same [simp]: "cross3 a b a = 0" "cross3 a a b = 0" "cross3 a b b = 0"
  by (simp_all add: cross3_def)

text \<open>A chain turns left at every inner vertex; a point is on or to the left of every edge of a
  chain.\<close>

definition turnsLeft :: "point list \<Rightarrow> bool" where
  "turnsLeft L \<longleftrightarrow> (\<forall>i. Suc (Suc i) < length L \<longrightarrow> 0 < cross3 (L ! i) (L ! Suc i) (L ! Suc (Suc i)))"

definition supports :: "point list \<Rightarrow> point \<Rightarrow> bool" where
  "supports L q \<longleftrightarrow> (\<forall>i. Suc i < length L \<longrightarrow> 0 \<le> cross3 (L ! i) (L ! Suc i) q)"

lemma turnsLeft_butlast: "turnsLeft L \<Longrightarrow> turnsLeft (butlast L)"
  by (simp add: turnsLeft_def nth_butlast)

lemma supports_butlast: "supports L q \<Longrightarrow> supports (butlast L) q"
  by (simp add: supports_def nth_butlast)

lemma sorted_wrt_butlast: "sorted_wrt P L \<Longrightarrow> sorted_wrt P (butlast L)"
  by (induction L) (auto dest: in_set_butlastD)

text \<open>The state of the inner loop: \<open>Q\<close> are the points processed so far, \<open>c\<close> is the next point,
  \<open>st\<close> the stack.\<close>

definition popInv :: "point list \<Rightarrow> point \<Rightarrow> point list \<Rightarrow> bool" where
  "popInv Q c st \<longleftrightarrow>
     st \<noteq> [] \<and> set st \<subseteq> set Q \<and> sorted_wrt lexLe st \<and> turnsLeft st
     \<and> (\<forall>q \<in> set Q. supports st q)
     \<and> (\<forall>q \<in> set Q. lexLe (last st) q \<longrightarrow> 0 \<le> cross3 (last st) c q)"

lemma popInv_butlast:
  assumes inv: "popInv Q c st" and len: "2 \<le> length st"
    and pop: "cross3 (st ! (length st - 2)) (st ! (length st - 1)) c \<le> 0"
    and c: "\<forall>q \<in> set Q. lexLe q c"
  shows "popInv Q c (butlast st)"
proof -
  let ?n = "length st"
  let ?s = "st ! (?n - 2)" and ?t = "st ! (?n - 1)"
  have ne: "butlast st \<noteq> []" using len by (cases st rule: rev_cases) auto
  have nonempty: "st \<noteq> []" using len by auto
  have last_t: "last st = ?t" using nonempty by (simp add: last_conv_nth)
  have last_s: "last (butlast st) = ?s"
  proof -
    have "length (butlast st) - 1 = ?n - 2" by simp
    moreover have "?n - 2 < length (butlast st)" using len by simp
    ultimately show ?thesis using ne by (simp add: last_conv_nth nth_butlast)
  qed
  have st: "lexLe ?s ?t"
  proof -
    have "sorted_wrt lexLe st" using inv by (simp add: popInv_def)
    moreover have "?n - 2 < ?n - 1" "?n - 1 < ?n" using len by simp_all
    ultimately show ?thesis by (rule sorted_wrt_nth_less)
  qed
  have tQ: "?t \<in> set Q"
  proof -
    have "?t \<in> set st" using nonempty by simp
    moreover have "set st \<subseteq> set Q" using inv by (simp add: popInv_def)
    ultimately show ?thesis by (rule set_mp [rotated])
  qed
  have edge: "0 \<le> cross3 ?s ?t q" if "q \<in> set Q" for q
  proof -
    have "supports st q" using inv that by (simp add: popInv_def)
    then have "Suc (?n - 2) < ?n \<longrightarrow> 0 \<le> cross3 (st ! (?n - 2)) (st ! Suc (?n - 2)) q"
      unfolding supports_def by (rule spec)
    moreover have "Suc (?n - 2) < ?n" "Suc (?n - 2) = ?n - 1" using len by simp_all
    ultimately show ?thesis by simp
  qed
  have aux: "0 \<le> cross3 ?s c q" if q: "q \<in> set Q" and sq: "lexLe ?s q" for q
  proof (cases "lexLe ?t q")
    case True
    have "\<forall>q \<in> set Q. lexLe (last st) q \<longrightarrow> 0 \<le> cross3 (last st) c q"
      using inv by (simp add: popInv_def)
    then have "0 \<le> cross3 ?t c q" using True q by (simp add: last_t)
    moreover have "lexLe q c" using c q by simp
    ultimately show ?thesis using st True pop by (intro turn_pop_beyond [of ?s ?t q c])
  next
    case False
    then have "lexLe q ?t" using lexLe_total by blast
    moreover have "lexLe ?t c" using c tQ by simp
    ultimately show ?thesis using sq edge [OF q] pop by (intro turn_pop_between [of ?s q ?t c])
  qed
  show ?thesis
    unfolding popInv_def
  proof (intro conjI)
    show "butlast st \<noteq> []" by (rule ne)
    show "set (butlast st) \<subseteq> set Q"
      using inv by (auto simp add: popInv_def dest: in_set_butlastD)
    show "sorted_wrt lexLe (butlast st)"
      using inv by (simp add: popInv_def sorted_wrt_butlast)
    show "turnsLeft (butlast st)"
      using inv by (simp add: popInv_def turnsLeft_butlast)
    show "\<forall>q \<in> set Q. supports (butlast st) q"
      using inv by (simp add: popInv_def supports_butlast)
    show "\<forall>q \<in> set Q. lexLe (last (butlast st)) q \<longrightarrow> 0 \<le> cross3 (last (butlast st)) c q"
      using aux by (simp add: last_s)
  qed
qed

lemma popWhile_inv:
  "\<forall>q \<in> set Q. lexLe q c \<Longrightarrow> popInv Q c st \<Longrightarrow>
         popInv Q c (popWhile c st) \<and> hd (popWhile c st) = hd st
         \<and> (2 \<le> length (popWhile c st) \<longrightarrow>
              0 < cross3 (popWhile c st ! (length (popWhile c st) - 2))
                         (popWhile c st ! (length (popWhile c st) - 1)) c)"
proof (induction c st rule: popWhile.induct)
  case (1 pt st)
  show ?case
  proof (cases "2 \<le> length st \<and> cross3 (st ! (length st - 2)) (st ! (length st - 1)) pt \<le> 0")
    case True
    then have inv': "popInv Q pt (butlast st)"
      using popInv_butlast [OF "1.prems"(2) _ _ "1.prems"(1)] by blast
    have hd: "hd (butlast st) = hd st"
      using True by (cases st) auto
    have eq: "popWhile pt st = popWhile pt (butlast st)"
      using True by (subst popWhile.simps) simp
    show ?thesis
      using "1.IH" [OF True "1.prems"(1) inv'] hd by (simp only: eq) simp
  next
    case False
    then have eq: "popWhile pt st = st" by (subst popWhile.simps) auto
    show ?thesis using False "1.prems" by (auto simp add: eq)
  qed
qed


lemma sorted_lexLe_last: "sorted_wrt lexLe Q \<Longrightarrow> q \<in> set Q \<Longrightarrow> lexLe q (last Q)"
proof (induction Q)
  case Nil
  then show ?case by simp
next
  case (Cons x Q)
  show ?case
  proof (cases "Q = []")
    case True
    then show ?thesis using Cons.prems by simp
  next
    case False
    then have "last Q \<in> set Q" by simp
    then show ?thesis using Cons False by auto
  qed
qed

lemma sorted_lexLe_hd: "sorted_wrt lexLe Q \<Longrightarrow> q \<in> set Q \<Longrightarrow> lexLe (hd Q) q"
  by (cases Q) auto

text \<open>The state of the outer loop after the points \<open>Q\<close>: the stack \<open>L\<close> runs from the first to
  the last of them, turns left everywhere, and has every processed point on its left.\<close>

definition chainInv :: "point list \<Rightarrow> point list \<Rightarrow> bool" where
  "chainInv Q L \<longleftrightarrow>
     L \<noteq> [] \<and> hd L = hd Q \<and> last L = last Q \<and> set L \<subseteq> set Q \<and> sorted_wrt lexLe L
     \<and> turnsLeft L \<and> (\<forall>q \<in> set Q. supports L q)"

lemma chainInv_popInv:
  assumes "chainInv Q L" and "sorted_wrt lexLe Q"
  shows "popInv Q c L"
proof -
  have "0 \<le> cross3 (last L) c q" if q: "q \<in> set Q" and l: "lexLe (last L) q" for q
  proof -
    have "lexLe q (last Q)" using assms(2) q by (rule sorted_lexLe_last)
    moreover have "last L = last Q" using assms(1) by (simp add: chainInv_def)
    ultimately have "q = last L" using l lexLe_antisym by simp
    then show ?thesis by simp
  qed
  then show ?thesis using assms(1) by (simp add: chainInv_def popInv_def)
qed

lemma chain_strict_support:
  assumes srt: "sorted_wrt lexLe r" and tl: "turnsLeft r" and le: "\<forall>x \<in> set r. lexLe x c"
    and top: "0 < cross3 (r ! (length r - 2)) (r ! (length r - 1)) c"
  shows "Suc i < length r \<Longrightarrow> 0 < cross3 (r ! i) (r ! Suc i) c"
proof -
  let ?n = "length r"
  have down: "j \<le> ?n - 2 \<Longrightarrow> 2 \<le> ?n \<Longrightarrow> 0 < cross3 (r ! (?n - 2 - j)) (r ! (?n - 1 - j)) c" for j
  proof (induction j)
    case 0
    then show ?case using top by simp
  next
    case (Suc j)
    let ?x = "r ! (?n - 2 - Suc j)" and ?y = "r ! (?n - 2 - j)" and ?z = "r ! (?n - 1 - j)"
    have j: "Suc j \<le> ?n - 2" using Suc.prems by simp
    have ix: "Suc (?n - 2 - Suc j) = ?n - 2 - j" "Suc (?n - 2 - j) = ?n - 1 - j"
      "?n - 1 - Suc j = ?n - 2 - j"
      using j Suc.prems by simp_all
    have lt: "?n - 2 - Suc j < ?n - 2 - j" "?n - 2 - j < ?n - 1 - j" "?n - 1 - j < ?n"
      using j Suc.prems by simp_all
    have xy: "lexLe ?x ?y" using srt lt by (intro sorted_wrt_nth_less) simp_all
    have yz: "lexLe ?y ?z" using srt lt by (intro sorted_wrt_nth_less) simp_all
    have zc: "lexLe ?z c" using le lt by simp
    have "Suc (Suc (?n - 2 - Suc j)) < ?n" using j Suc.prems by simp
    then have "0 < cross3 (r ! (?n - 2 - Suc j)) (r ! Suc (?n - 2 - Suc j)) (r ! Suc (Suc (?n - 2 - Suc j)))"
      using tl by (simp add: turnsLeft_def)
    then have t: "0 < cross3 ?x ?y ?z" by (simp only: ix)
    have "0 < cross3 ?y ?z c" using Suc.IH j Suc.prems by simp
    then have "0 < cross3 ?x ?y c" using xy yz zc t by (intro turn_chain [of ?x ?y ?z c])
    then show ?case by (simp add: ix)
  qed
  assume i: "Suc i < ?n"
  then have "?n - 2 - i \<le> ?n - 2" "2 \<le> ?n" by simp_all
  from down [OF this] have "0 < cross3 (r ! (?n - 2 - (?n - 2 - i))) (r ! (?n - 1 - (?n - 2 - i))) c" .
  moreover have "?n - 2 - (?n - 2 - i) = i" "?n - 1 - (?n - 2 - i) = Suc i" using i by simp_all
  ultimately show ?thesis by simp
qed

lemma push_inv:
  assumes inv: "popInv Q c r"
    and top: "2 \<le> length r \<longrightarrow> 0 < cross3 (r ! (length r - 2)) (r ! (length r - 1)) c"
    and c: "\<forall>q \<in> set Q. lexLe q c"
    and hd: "hd r = hd Q" and Q: "sorted_wrt lexLe Q" "Q \<noteq> []"
  shows "chainInv (Q @ [c]) (r @ [c])"
proof -
  let ?n = "length r"
  have ne: "r \<noteq> []" and sub: "set r \<subseteq> set Q" and srt: "sorted_wrt lexLe r"
    and tl: "turnsLeft r" and sup: "\<forall>q \<in> set Q. supports r q"
    and aux: "\<forall>q \<in> set Q. lexLe (last r) q \<longrightarrow> 0 \<le> cross3 (last r) c q"
    using inv by (simp_all add: popInv_def)
  have rc: "\<forall>x \<in> set r. lexLe x c" using sub c by auto
  have n: "0 < ?n" using ne by simp
  have last_r: "last r = r ! (?n - 1)" using ne by (simp add: last_conv_nth)
  have turns: "turnsLeft (r @ [c])"
    unfolding turnsLeft_def
  proof (intro allI impI)
    fix i assume i: "Suc (Suc i) < length (r @ [c])"
    show "0 < cross3 ((r @ [c]) ! i) ((r @ [c]) ! Suc i) ((r @ [c]) ! Suc (Suc i))"
    proof (cases "Suc (Suc i) < ?n")
      case True
      then show ?thesis using tl by (simp add: turnsLeft_def nth_append)
    next
      case False
      then have e: "Suc (Suc i) = ?n" using i by simp
      then have "i = ?n - 2" "Suc i = ?n - 1" "2 \<le> ?n" by simp_all
      then show ?thesis using top e by (simp add: nth_append)
    qed
  qed
  have new_edge: "0 \<le> cross3 (r ! (?n - 1)) c q" if q: "q \<in> set Q" for q
  proof (cases "lexLe (last r) q")
    case True
    then show ?thesis using aux q by (simp add: last_r)
  next
    case False
    then have qb: "lexLe q (r ! (?n - 1))" using lexLe_total last_r by metis
    have two: "2 \<le> ?n"
    proof (rule ccontr)
      assume "\<not> 2 \<le> ?n"
      then have "?n = 1" using n by arith
      then have "last r = hd r" by (cases r) auto
      then have "lexLe (last r) q" using hd Q(1) q by (simp add: sorted_lexLe_hd)
      then show False using False by simp
    qed
    let ?a = "r ! (?n - 2)" and ?b = "r ! (?n - 1)"
    have "?n - 2 < ?n - 1" "?n - 1 < ?n" using two by simp_all
    with srt have ab: "lexLe ?a ?b" by (rule sorted_wrt_nth_less)
    have bc: "lexLe ?b c" using rc n by simp
    have "supports r q" using sup q by simp
    then have "Suc (?n - 2) < ?n \<longrightarrow> 0 \<le> cross3 (r ! (?n - 2)) (r ! Suc (?n - 2)) q"
      unfolding supports_def by (rule spec)
    moreover have "Suc (?n - 2) < ?n" "Suc (?n - 2) = ?n - 1" using two by simp_all
    ultimately have "0 \<le> cross3 ?a ?b q" by simp
    moreover have "0 < cross3 ?a ?b c" using top two by simp
    ultimately show ?thesis using ab qb bc by (intro turn_new_edge [of ?a ?b q c])
  qed
  have supp: "supports (r @ [c]) q" if q: "q \<in> set (Q @ [c])" for q
    unfolding supports_def
  proof (intro allI impI)
    fix i assume i: "Suc i < length (r @ [c])"
    show "0 \<le> cross3 ((r @ [c]) ! i) ((r @ [c]) ! Suc i) q"
    proof (cases "Suc i < ?n")
      case True
      have "0 \<le> cross3 (r ! i) (r ! Suc i) q"
      proof (cases "q = c")
        case True
        have "2 \<le> ?n" using \<open>Suc i < ?n\<close> by simp
        then have "0 < cross3 (r ! (?n - 2)) (r ! (?n - 1)) c" using top by simp
        from chain_strict_support [OF srt tl rc this \<open>Suc i < ?n\<close>] show ?thesis
          using True by simp
      next
        case False
        then have "q \<in> set Q" using q by simp
        then have "supports r q" using sup by simp
        then show ?thesis using True by (simp add: supports_def)
      qed
      then show ?thesis using True by (simp add: nth_append)
    next
      case False
      then have e: "Suc i = ?n" using i by simp
      then have i': "i = ?n - 1" by simp
      have "0 \<le> cross3 (r ! (?n - 1)) c q"
      proof (cases "q = c")
        case True
        then show ?thesis by simp
      next
        case False
        then have "q \<in> set Q" using q by simp
        then show ?thesis by (rule new_edge)
      qed
      then show ?thesis using e i' n by (simp add: nth_append)
    qed
  qed
  show ?thesis
    unfolding chainInv_def
  proof (intro conjI)
    show "r @ [c] \<noteq> []" by simp
    show "hd (r @ [c]) = hd (Q @ [c])" using ne hd Q(2) by simp
    show "last (r @ [c]) = last (Q @ [c])" by simp
    show "set (r @ [c]) \<subseteq> set (Q @ [c])" using sub by auto
    show "sorted_wrt lexLe (r @ [c])" using srt rc by (simp add: sorted_wrt_append)
    show "turnsLeft (r @ [c])" by (rule turns)
    show "\<forall>q \<in> set (Q @ [c]). supports (r @ [c]) q" using supp by blast
  qed
qed

lemma step_inv:
  assumes "chainInv Q L" and "sorted_wrt lexLe (Q @ [c])" and "Q \<noteq> []"
  shows "chainInv (Q @ [c]) (popWhile c L @ [c])"
proof -
  have Q: "sorted_wrt lexLe Q" and c: "\<forall>q \<in> set Q. lexLe q c"
    using assms(2) by (simp_all add: sorted_wrt_append)
  have p: "popInv Q c L" using assms(1) Q by (rule chainInv_popInv)
  have hd: "hd L = hd Q" using assms(1) by (simp add: chainInv_def)
  from popWhile_inv [OF c p]
  show ?thesis using c hd Q assms(3) by (intro push_inv) simp_all
qed

lemma fold_inv:
  "chainInv Q L \<Longrightarrow> sorted_wrt lexLe (Q @ ps) \<Longrightarrow> Q \<noteq> [] \<Longrightarrow>
   chainInv (Q @ ps) (fold (\<lambda>pt st. popWhile pt st @ [pt]) ps L)"
proof (induction ps arbitrary: Q L)
  case Nil
  then show ?case by simp
next
  case (Cons c ps)
  have s: "sorted_wrt lexLe (Q @ [c])"
    using Cons.prems(2) by (auto simp add: sorted_wrt_append)
  have "chainInv (Q @ [c]) (popWhile c L @ [c])"
    using Cons.prems(1) s Cons.prems(3) by (rule step_inv)
  moreover have "sorted_wrt lexLe ((Q @ [c]) @ ps)" using Cons.prems(2) by simp
  ultimately have "chainInv ((Q @ [c]) @ ps) (fold (\<lambda>pt st. popWhile pt st @ [pt]) ps (popWhile c L @ [c]))"
    by (intro Cons.IH) simp_all
  then show ?case by simp
qed

lemma popWhile_Nil [simp]: "popWhile c [] = []"
  by (subst popWhile.simps) simp

lemma popWhile_single [simp]: "popWhile c [a] = [a]"
  by (subst popWhile.simps) simp

lemma chainInv_single: "chainInv [p] [p]"
  by (simp add: chainInv_def turnsLeft_def supports_def)

lemma hullChain_inv:
  assumes "ps \<noteq> []" and "sorted_wrt lexLe ps"
  shows "chainInv ps (hullChain ps)"
proof -
  obtain p qs where ps: "ps = p # qs" using assms(1) by (cases ps) auto
  have "chainInv ([p] @ qs) (fold (\<lambda>pt st. popWhile pt st @ [pt]) qs [p])"
    using chainInv_single assms(2) by (intro fold_inv) (simp_all add: ps)
  then show ?thesis by (simp add: ps hullChain_def)
qed


subsection \<open>Sorting\<close>

lemma cmpXY_le_iff: "cmpXY a b \<le> 0 \<longleftrightarrow> lexLe a b"
  by (auto simp add: cmpXY_def lexLe_def)

lemma set_insertBy [simp]: "set (insertBy cmp x xs) = insert x (set xs)"
  by (induction xs) auto

lemma set_sortBy [simp]: "set (sortBy cmp xs) = set xs"
  by (induction xs) (simp_all add: sortBy_def)

lemma sorted_insertBy_cmpXY:
  "sorted_wrt lexLe xs \<Longrightarrow> sorted_wrt lexLe (insertBy cmpXY x xs)"
proof (induction xs)
  case Nil
  then show ?case by simp
next
  case (Cons y ys)
  show ?case
  proof (cases "cmpXY x y \<le> 0")
    case True
    then have xy: "lexLe x y" by (simp add: cmpXY_le_iff)
    then have "\<forall>z \<in> set ys. lexLe x z" using Cons.prems lexLe_trans by auto
    then show ?thesis using True xy Cons.prems by simp
  next
    case False
    then have "lexLe y x" using lexLe_total [of x y] by (simp add: cmpXY_le_iff)
    then show ?thesis using False Cons by auto
  qed
qed

lemma sorted_sortBy_cmpXY: "sorted_wrt lexLe (sortBy cmpXY xs)"
  by (induction xs) (simp_all add: sortBy_def sorted_insertBy_cmpXY)

subsection \<open>The upper chain, by point reflection\<close>

definition neg :: "point \<Rightarrow> point" where
  "neg p = (- fst p, - snd p)"

lemma cross3_neg [simp]: "cross3 (neg a) (neg b) (neg c) = cross3 a b c"
  by (simp add: cross3_def neg_def algebra_simps)

lemma lexLe_neg [simp]: "lexLe (neg a) (neg b) \<longleftrightarrow> lexLe b a"
  by (auto simp add: lexLe_def neg_def)

lemma popWhile_neg: "popWhile (neg c) (map neg st) = map neg (popWhile c st)"
proof (induction c st rule: popWhile.induct)
  case (1 pt st)
  show ?case
  proof (cases "2 \<le> length st \<and> cross3 (st ! (length st - 2)) (st ! (length st - 1)) pt \<le> 0")
    case True
    then have "popWhile pt st = popWhile pt (butlast st)" by (subst popWhile.simps) simp
    moreover have "popWhile (neg pt) (map neg st) = popWhile (neg pt) (butlast (map neg st))"
    proof -
      have l: "2 \<le> length st" using True by simp
      then have "map neg st ! (length st - 2) = neg (st ! (length st - 2))"
        "map neg st ! (length st - 1) = neg (st ! (length st - 1))"
        by simp_all
      then have "2 \<le> length (map neg st)
          \<and> cross3 (map neg st ! (length (map neg st) - 2))
               (map neg st ! (length (map neg st) - 1)) (neg pt) \<le> 0"
        using True by simp
      then show ?thesis by (subst popWhile.simps) simp
    qed
    ultimately show ?thesis using "1.IH" [OF True] by (simp add: map_butlast)
  next
    case False
    then have "popWhile pt st = st" by (subst popWhile.simps) auto
    moreover have "popWhile (neg pt) (map neg st) = map neg st"
    proof (cases "2 \<le> length st")
      case True
      then have "map neg st ! (length st - 2) = neg (st ! (length st - 2))"
        "map neg st ! (length st - 1) = neg (st ! (length st - 1))"
        by simp_all
      then have "\<not> cross3 (map neg st ! (length (map neg st) - 2))
               (map neg st ! (length (map neg st) - 1)) (neg pt) \<le> 0"
        using True False by simp
      then show ?thesis by (subst popWhile.simps) simp
    next
      case False
      then show ?thesis by (subst popWhile.simps) simp
    qed
    ultimately show ?thesis by simp
  qed
qed

lemma fold_neg:
  "fold (\<lambda>pt st. popWhile pt st @ [pt]) (map neg ps) (map neg L)
   = map neg (fold (\<lambda>pt st. popWhile pt st @ [pt]) ps L)"
proof (induction ps arbitrary: L)
  case Nil
  show ?case by simp
next
  case (Cons c ps)
  have "popWhile (neg c) (map neg L) @ [neg c] = map neg (popWhile c L @ [c])"
    by (simp add: popWhile_neg)
  then show ?case using Cons.IH [of "popWhile c L @ [c]"] by simp
qed

lemma hullChain_neg: "hullChain (map neg ps) = map neg (hullChain ps)"
  using fold_neg [of ps "[]"] by (simp add: hullChain_def)

lemma sorted_neg_rev: "sorted_wrt lexLe p \<Longrightarrow> sorted_wrt lexLe (map neg (rev p))"
  by (simp add: sorted_wrt_map sorted_wrt_rev)

text \<open>What the two chains of a sorted list of points have in common.\<close>

lemma lower_chain:
  assumes "p \<noteq> []" and "sorted_wrt lexLe p"
  shows "hd (hullChain p) = hd p" and "last (hullChain p) = last p"
    and "set (hullChain p) \<subseteq> set p" and "turnsLeft (hullChain p)"
    and "q \<in> set p \<Longrightarrow> supports (hullChain p) q"
    and "sorted_wrt lexLe (hullChain p)"
  using hullChain_inv [OF assms] by (simp_all add: chainInv_def)

lemma upper_chain:
  assumes "p \<noteq> []" and "sorted_wrt lexLe p"
  shows "hd (hullChain (rev p)) = last p" and "last (hullChain (rev p)) = hd p"
    and "set (hullChain (rev p)) \<subseteq> set p" and "turnsLeft (hullChain (rev p))"
    and "q \<in> set p \<Longrightarrow> supports (hullChain (rev p)) q"
    and "sorted_wrt lexLe (rev (hullChain (rev p)))"
proof -
  let ?U = "hullChain (rev p)"
  have ne: "map neg (rev p) \<noteq> []" using assms(1) by simp
  have inv: "chainInv (map neg (rev p)) (map neg ?U)"
    using hullChain_inv [OF ne sorted_neg_rev [OF assms(2)]] by (simp add: hullChain_neg)
  have U: "?U \<noteq> []" using inv by (simp add: chainInv_def)
  have inj: "neg a = neg b \<Longrightarrow> a = b" for a b
    by (simp add: neg_def prod_eq_iff)
  have "neg (hd ?U) = neg (hd (rev p))"
    using inv U assms(1) by (simp add: chainInv_def hd_map)
  then show "hd ?U = last p" using assms(1) by (simp add: inj hd_rev)
  have "neg (last ?U) = neg (last (rev p))"
    using inv U assms(1) by (simp add: chainInv_def last_map)
  then show "last ?U = hd p" using assms(1) by (simp add: inj last_rev)
  have "neg ` set ?U \<subseteq> neg ` set p" using inv by (simp add: chainInv_def)
  then show "set ?U \<subseteq> set p" using inj by (auto simp add: image_subset_iff dest!: inj)
  have "turnsLeft (map neg ?U)" using inv by (simp add: chainInv_def)
  then show "turnsLeft ?U" by (simp add: turnsLeft_def)
  show "supports ?U q" if "q \<in> set p"
  proof -
    have "\<forall>x \<in> set p. supports (map neg ?U) (neg x)" using inv by (simp add: chainInv_def)
    then have "supports (map neg ?U) (neg q)" using that by blast
    then show ?thesis by (simp add: supports_def)
  qed
  have "sorted_wrt lexLe (map neg ?U)" using inv by (simp add: chainInv_def)
  then show "sorted_wrt lexLe (rev ?U)" by (simp add: sorted_wrt_map sorted_wrt_rev)
qed


subsection \<open>The ring of the two chains\<close>

lemma hullChain_snoc: "hullChain (qs @ [c]) = popWhile c (hullChain qs) @ [c]"
  by (simp add: hullChain_def)

lemma popWhile_nonempty: "st \<noteq> [] \<Longrightarrow> popWhile c st \<noteq> []"
proof (induction c st rule: popWhile.induct)
  case (1 pt st)
  show ?case
  proof (cases "2 \<le> length st \<and> cross3 (st ! (length st - 2)) (st ! (length st - 1)) pt \<le> 0")
    case True
    then have "butlast st \<noteq> []" by (cases st rule: rev_cases) auto
    moreover have "popWhile pt st = popWhile pt (butlast st)"
      using True by (subst popWhile.simps) simp
    ultimately show ?thesis using "1.IH" [OF True] by simp
  next
    case False
    then have "popWhile pt st = st" by (subst popWhile.simps) auto
    then show ?thesis using "1.prems" by simp
  qed
qed

lemma hullChain_nonempty: "ps \<noteq> [] \<Longrightarrow> hullChain ps \<noteq> []"
  by (cases ps rule: rev_cases) (simp_all add: hullChain_snoc)

lemma hullChain_length: "2 \<le> length ps \<Longrightarrow> 2 \<le> length (hullChain ps)"
proof (cases ps rule: rev_cases)
  case Nil
  assume "2 \<le> length ps"
  then show ?thesis using Nil by simp
next
  case (snoc qs c)
  assume "2 \<le> length ps"
  then have "qs \<noteq> []" using snoc by auto
  then have "popWhile c (hullChain qs) \<noteq> []"
    by (intro popWhile_nonempty hullChain_nonempty)
  then have "1 \<le> length (popWhile c (hullChain qs))"
    by (cases "popWhile c (hullChain qs)") simp_all
  then show ?thesis using snoc by (simp add: hullChain_snoc)
qed

text \<open>Every point is on or to the left of every edge of the ring \<open>H\<close>, the closing edge from the
  last vertex to the first included.\<close>

definition leftOfRing :: "point list \<Rightarrow> point \<Rightarrow> bool" where
  "leftOfRing H q \<longleftrightarrow> (\<forall>i < length H. 0 \<le> cross3 (H ! i) (H ! ((i + 1) mod length H)) q)"

lemma ring_of_chains:
  assumes L: "2 \<le> length L" and U: "2 \<le> length U"
    and LU: "last L = hd U" and UL: "last U = hd L"
    and sL: "supports L q" and sU: "supports U q"
  shows "leftOfRing (butlast L @ butlast U) q"
  unfolding leftOfRing_def
proof (intro allI impI)
  let ?H = "butlast L @ butlast U"
  let ?a = "length L - 1" and ?b = "length U - 1"
  fix i assume i: "i < length ?H"
  have n: "length ?H = ?a + ?b" by simp
  have a: "1 \<le> ?a" and b: "1 \<le> ?b" using L U by simp_all
  have Lne: "L \<noteq> []" and Une: "U \<noteq> []" using L U by auto
  have edgeL: "0 \<le> cross3 (L ! j) (L ! Suc j) q" if "Suc j < length L" for j
    using sL that by (simp add: supports_def)
  have edgeU: "0 \<le> cross3 (U ! j) (U ! Suc j) q" if "Suc j < length U" for j
    using sU that by (simp add: supports_def)
  have H_low: "?H ! j = L ! j" if "j < ?a" for j
    using that by (simp add: nth_append nth_butlast)
  have H_up: "?H ! (?a + j) = U ! j" if "j < ?b" for j
    using that by (simp add: nth_append nth_butlast)
  have lastL: "L ! ?a = U ! 0"
    using LU Lne Une by (simp add: last_conv_nth hd_conv_nth)
  have lastU: "U ! ?b = L ! 0"
    using UL Lne Une by (simp add: last_conv_nth hd_conv_nth)
  show "0 \<le> cross3 (?H ! i) (?H ! ((i + 1) mod length ?H)) q"
  proof (cases "i < ?a")
    case True
    have nowrap: "(i + 1) mod length ?H = i + 1" using True b n by simp
    have next': "?H ! (i + 1) = L ! Suc i"
    proof (cases "i + 1 < ?a")
      case True
      then show ?thesis using H_low [of "i + 1"] by simp
    next
      case False
      then have e: "i + 1 = ?a" using True by simp
      have "?H ! (?a + 0) = U ! 0" using b by (intro H_up) simp
      then show ?thesis using e lastL by simp
    qed
    have "0 \<le> cross3 (L ! i) (L ! Suc i) q" using True by (intro edgeL) simp
    then show ?thesis using H_low [OF True] next' by (simp only: nowrap)
  next
    case False
    define j where "j = i - ?a"
    have ij: "i = ?a + j" and j: "j < ?b" using False i n by (simp_all add: j_def)
    have cur: "?H ! i = U ! j" using H_up [OF j] by (simp only: ij)
    have next': "?H ! ((i + 1) mod length ?H) = U ! Suc j"
    proof (cases "Suc j < ?b")
      case True
      then have "(i + 1) mod length ?H = ?a + Suc j" using ij n by simp
      then show ?thesis using H_up [OF True] by simp
    next
      case False
      then have e: "Suc j = ?b" using j by simp
      then have "i + 1 = length ?H" using ij n by simp
      then have "(i + 1) mod length ?H = 0" by simp
      moreover have "?H ! 0 = L ! 0" using a by (intro H_low) simp
      ultimately show ?thesis using lastU e by simp
    qed
    have "0 \<le> cross3 (U ! j) (U ! Suc j) q" using j by (intro edgeU) simp
    then show ?thesis by (simp only: cur next')
  qed
qed

subsection \<open>The hull\<close>

lemma convexHull_small:
  "length (stripClosingDuplicate points) \<le> 1 \<Longrightarrow> convexHull points = stripClosingDuplicate points"
  by (simp add: convexHull_def)

lemma convexHull_chains:
  "2 \<le> length (stripClosingDuplicate points) \<Longrightarrow>
   convexHull points =
     butlast (hullChain (sortBy cmpXY (stripClosingDuplicate points)))
     @ butlast (hullChain (rev (sortBy cmpXY (stripClosingDuplicate points))))"
  by (simp add: convexHull_def Let_def)

lemma hullChain_two: "hullChain [a, b] = [a, b]"
  by (simp add: hullChain_def)

lemma length_two: "length xs = 2 \<longrightarrow> (\<exists>a b. xs = [a, b])"
  by (auto simp add: numeral_2_eq_2 length_Suc_conv)

lemma convexHull_two:
  assumes "length (stripClosingDuplicate points) = 2"
  shows "convexHull points = sortBy cmpXY (stripClosingDuplicate points)"
proof -
  let ?p = "sortBy cmpXY (stripClosingDuplicate points)"
  have "length ?p = 2" using assms by (simp add: length_sortBy)
  then obtain a b where p: "?p = [a, b]"
    using length_two [of ?p] by (elim exE impE)
  show ?thesis using assms by (simp add: convexHull_chains p hullChain_two)
qed

lemma convexHull_ring:
  assumes two: "2 \<le> length (stripClosingDuplicate points)"
  shows "set (convexHull points) \<subseteq> set (stripClosingDuplicate points)"
    and "convexHull points \<noteq> []"
    and "hd (convexHull points) = hd (sortBy cmpXY (stripClosingDuplicate points))"
    and "last (sortBy cmpXY (stripClosingDuplicate points)) \<in> set (convexHull points)"
    and "q \<in> set (stripClosingDuplicate points) \<Longrightarrow> leftOfRing (convexHull points) q"
proof -
  let ?pts = "stripClosingDuplicate points"
  let ?p = "sortBy cmpXY ?pts"
  let ?L = "hullChain ?p" and ?U = "hullChain (rev ?p)"
  have H: "convexHull points = butlast ?L @ butlast ?U" using two by (rule convexHull_chains)
  have len: "2 \<le> length ?p" using two by (simp add: length_sortBy)
  have ne: "?p \<noteq> []"
  proof
    assume "?p = []"
    then have "length ?p = 0" by simp
    then show False using len by simp
  qed
  have srt: "sorted_wrt lexLe ?p" by (rule sorted_sortBy_cmpXY)
  have L2: "2 \<le> length ?L" using len by (rule hullChain_length)
  have U2: "2 \<le> length ?U" using len by (intro hullChain_length) simp
  have bL: "butlast ?L \<noteq> []" using L2 by (cases ?L rule: rev_cases) auto
  have bU: "butlast ?U \<noteq> []" using U2 by (cases ?U rule: rev_cases) auto
  note low = lower_chain [OF ne srt] and up = upper_chain [OF ne srt]
  show "set (convexHull points) \<subseteq> set ?pts"
    using low(3) up(3) by (auto simp add: H dest: in_set_butlastD)
  show "convexHull points \<noteq> []" using bL by (simp add: H)
  have "hd (butlast ?L) = hd ?L" using bL by (cases ?L) auto
  then show "hd (convexHull points) = hd ?p" using bL low(1) by (simp add: H)
  have "hd (butlast ?U) = hd ?U" using bU by (cases ?U) auto
  then have "hd ?U \<in> set (butlast ?U)" using bU by (metis hd_in_set)
  then show "last ?p \<in> set (convexHull points)" using up(1) by (simp add: H)
  show "leftOfRing (convexHull points) q" if "q \<in> set ?pts"
  proof -
    have q: "q \<in> set ?p" using that by simp
    have "leftOfRing (butlast ?L @ butlast ?U) q"
      using L2 U2 low(1,2) up(1,2) low(5) [OF q] up(5) [OF q] by (intro ring_of_chains) simp_all
    then show ?thesis by (simp only: H)
  qed
qed


text \<open>
  Claim C9, amended.  \<open>convexHull\<close> first strips a duplicate closing point from its input.
  With 0 or 1 point left it returns them unchanged; with exactly 2 points left it returns the
  two points in lexicographic order (by x, then by y).  With 2 or more points left the result
  is the monotone chain: the lower chain of the sorted points without its last point, followed
  by the upper chain without its last point.  Its vertices are input points, it starts at the
  lexicographically smallest point and passes through the largest, the lower chain ascends
  and the upper chain descends in the lexicographic order, each chain turns strictly left at
  every vertex, and every input point is on or to the left of every directed edge of the ring,
  the closing edge included: the result is the convex hull in counter-clockwise order.
\<close>

theorem convexHull_monotone_chain_ccw:
  "(length (stripClosingDuplicate points) \<le> 1 \<longrightarrow>
      convexHull points = stripClosingDuplicate points)
   \<and> (length (stripClosingDuplicate points) = 2 \<longrightarrow>
      convexHull points = sortBy cmpXY (stripClosingDuplicate points))
   \<and> (2 \<le> length (stripClosingDuplicate points) \<longrightarrow>
      convexHull points =
        butlast (hullChain (sortBy cmpXY (stripClosingDuplicate points)))
        @ butlast (hullChain (rev (sortBy cmpXY (stripClosingDuplicate points))))
      \<and> set (convexHull points) \<subseteq> set (stripClosingDuplicate points)
      \<and> convexHull points \<noteq> []
      \<and> hd (convexHull points) = hd (sortBy cmpXY (stripClosingDuplicate points))
      \<and> last (sortBy cmpXY (stripClosingDuplicate points)) \<in> set (convexHull points)
      \<and> sorted_wrt lexLe (hullChain (sortBy cmpXY (stripClosingDuplicate points)))
      \<and> sorted_wrt lexLe (rev (hullChain (rev (sortBy cmpXY (stripClosingDuplicate points)))))
      \<and> turnsLeft (hullChain (sortBy cmpXY (stripClosingDuplicate points)))
      \<and> turnsLeft (hullChain (rev (sortBy cmpXY (stripClosingDuplicate points))))
      \<and> (\<forall>q \<in> set (stripClosingDuplicate points). leftOfRing (convexHull points) q))"
proof (intro conjI impI)
  assume "length (stripClosingDuplicate points) \<le> 1"
  then show "convexHull points = stripClosingDuplicate points" by (rule convexHull_small)
next
  assume "length (stripClosingDuplicate points) = 2"
  then show "convexHull points = sortBy cmpXY (stripClosingDuplicate points)"
    by (rule convexHull_two)
next
  let ?p = "sortBy cmpXY (stripClosingDuplicate points)"
  assume two: "2 \<le> length (stripClosingDuplicate points)"
  have ne: "?p \<noteq> []"
  proof
    assume "?p = []"
    then have "length ?p = 0" by simp
    then show False using two by (simp add: length_sortBy)
  qed
  have srt: "sorted_wrt lexLe ?p" by (rule sorted_sortBy_cmpXY)
  show "convexHull points = butlast (hullChain ?p) @ butlast (hullChain (rev ?p))"
    using two by (rule convexHull_chains)
  show "set (convexHull points) \<subseteq> set (stripClosingDuplicate points)"
    using two by (rule convexHull_ring(1))
  show "convexHull points \<noteq> []" using two by (rule convexHull_ring(2))
  show "hd (convexHull points) = hd ?p" using two by (rule convexHull_ring(3))
  show "last ?p \<in> set (convexHull points)" using two by (rule convexHull_ring(4))
  show "sorted_wrt lexLe (hullChain ?p)" using ne srt by (rule lower_chain(6))
  show "sorted_wrt lexLe (rev (hullChain (rev ?p)))" using ne srt by (rule upper_chain(6))
  show "turnsLeft (hullChain ?p)" using ne srt by (rule lower_chain(4))
  show "turnsLeft (hullChain (rev ?p))" using ne srt by (rule upper_chain(4))
  show "\<forall>q \<in> set (stripClosingDuplicate points). leftOfRing (convexHull points) q"
    using two by (intro ballI convexHull_ring(5))
qed

text \<open>
  A single point comes back unchanged, and two points in descending order come back in
  ascending order.  A closed ring around a square with one interior point: the closing
  duplicate is stripped, the interior point is dropped and the corners come out
  counter-clockwise from the lexicographically smallest one; the interior point is to the left
  of the closing edge.
\<close>

definition ringQ :: "point list" where
  "ringQ = [(0, 0), (2, 2), (1, 1), (2, 0), (0, 2), (0, 0)]"

lemma strip_ringQ: "stripClosingDuplicate ringQ = [(0, 0), (2, 2), (1, 1), (2, 0), (0, 2)]"
  by (simp add: ringQ_def stripClosingDuplicate_def ptsEqual_def EPS_def)

lemma sort_ringQ:
  "sortBy cmpXY [(0, 0), (2, 2), (1, 1), (2, 0), (0, 2)] = [(0, 0), (0, 2), (1, 1), (2, 0), (2, 2)]"
  by (simp add: sortBy_def cmpXY_def)

lemma lower_ringQ: "hullChain [(0, 0), (0, 2), (1, 1), (2, 0), (2, 2)] = [(0, 0), (2, 0), (2, 2)]"
  by (simp add: hullChain_def popWhile.simps cross3_def)

lemma upper_ringQ: "hullChain [(2, 2), (2, 0), (1, 1), (0, 2), (0, 0)] = [(2, 2), (0, 2), (0, 0)]"
  by (simp add: hullChain_def popWhile.simps cross3_def)

theorem convexHull_monotone_chain_ccw_witness:
  "convexHull [(3, 4)] = [(3, 4)]
   \<and> convexHull [(2, 5), (1, 7)] = [(1, 7), (2, 5)]
   \<and> stripClosingDuplicate ringQ = [(0, 0), (2, 2), (1, 1), (2, 0), (0, 2)]
   \<and> convexHull ringQ = [(0, 0), (2, 0), (2, 2), (0, 2)]
   \<and> 0 \<le> cross3 (0, 2) (0, 0) (1, 1)"
proof -
  have s1: "stripClosingDuplicate [(3, 4)] = [(3, 4)]"
    by (simp add: stripClosingDuplicate_def)
  have "length (stripClosingDuplicate [(3, 4)]) \<le> 1" by (simp add: s1)
  then have "convexHull [(3, 4)] = stripClosingDuplicate [(3, 4)]"
    by (rule convexHull_monotone_chain_ccw [of "[(3, 4)]", THEN conjunct1, THEN mp])
  then have one: "convexHull [(3, 4)] = [(3, 4)]" by (simp only: s1)
  have s2: "stripClosingDuplicate [(2, 5), (1, 7)] = [(2, 5), (1, 7)]"
    by (simp add: stripClosingDuplicate_def ptsEqual_def EPS_def)
  have "length (stripClosingDuplicate [(2, 5), (1, 7)]) = 2" by (simp add: s2)
  then have "convexHull [(2, 5), (1, 7)] = sortBy cmpXY (stripClosingDuplicate [(2, 5), (1, 7)])"
    by (rule convexHull_monotone_chain_ccw [of "[(2, 5), (1, 7)]", THEN conjunct2, THEN conjunct1, THEN mp])
  then have pair: "convexHull [(2, 5), (1, 7)] = [(1, 7), (2, 5)]"
    by (simp add: s2 sortBy_def cmpXY_def)
  have two: "2 \<le> length (stripClosingDuplicate ringQ)" by (simp add: strip_ringQ)
  note hull = convexHull_monotone_chain_ccw [of ringQ, THEN conjunct2, THEN conjunct2, THEN mp, OF two]
  have chains: "convexHull ringQ =
      butlast (hullChain (sortBy cmpXY (stripClosingDuplicate ringQ)))
      @ butlast (hullChain (rev (sortBy cmpXY (stripClosingDuplicate ringQ))))"
    using hull by (elim conjE)
  have H: "convexHull ringQ = [(0, 0), (2, 0), (2, 2), (0, 2)]"
    by (simp add: chains strip_ringQ sort_ringQ lower_ringQ upper_ringQ)
  have "\<forall>q \<in> set (stripClosingDuplicate ringQ). leftOfRing (convexHull ringQ) q"
    using hull by (elim conjE)
  moreover have "(1, 1) \<in> set (stripClosingDuplicate ringQ)" by (simp add: strip_ringQ)
  ultimately have "leftOfRing (convexHull ringQ) (1, 1)" by (rule bspec)
  then have "leftOfRing [(0, 0), (2, 0), (2, 2), (0, 2)] (1, 1)" by (simp only: H)
  then have "\<forall>i < 4. 0 \<le> cross3 ([(0, 0), (2, 0), (2, 2), (0, 2)] ! i)
                 ([(0, 0), (2, 0), (2, 2), (0, 2)] ! ((i + 1) mod 4)) (1, 1)"
    by (simp add: leftOfRing_def)
  then have "(3 :: nat) < 4 \<longrightarrow> 0 \<le> cross3 ([(0, 0), (2, 0), (2, 2), (0, 2)] ! 3)
                 ([(0, 0), (2, 0), (2, 2), (0, 2)] ! ((3 + 1) mod 4)) (1, 1)"
    by (rule spec)
  then have "0 \<le> cross3 (0, 2) (0, 0) (1, 1)" by simp
  then show ?thesis using one pair strip_ringQ H by (intro conjI)
qed

text \<open>
  Two distinct points given in descending order: nothing is stripped, and the result is the
  two points in ascending order, not the input.
\<close>

theorem convexHull_two_points_counterexample:
  "stripClosingDuplicate [(1, 0), (0, 0)] = [(1, 0), (0, 0)]
   \<and> convexHull [(1, 0), (0, 0)] = [(0, 0), (1, 0)]"
  by (simp add: convexHull_def stripClosingDuplicate_def ptsEqual_def EPS_def sortBy_def
      cmpXY_def hullChain_def popWhile.simps)

end
